theory Spec2Isabelle
  imports Complex_Main "HOL-Library.Word" "HOL-Library.Sublist"
begin

section \<open>Values of the program\<close>

text \<open>
  The program is a single React component file, \<^verbatim>\<open>src/App.tsx\<close>. Its pure part
  derives a fabricated analysis result from a file's name length and byte size; its
  stateful part animates five simulated algorithms with browser timers.

  Modelling conventions.
  \<^item> A JavaScript string that comes from outside (\<^verbatim>\<open>file.name\<close>) is a list of UTF-16 code
    units, \<open>16 word list\<close>: \<^verbatim>\<open>.length\<close> counts code units and \<^verbatim>\<open>charCodeAt\<close> reads one.
    String literals of the source are ASCII and are written as HOL strings, whose
    \<open>length\<close> then agrees with \<^verbatim>\<open>.length\<close>.
  \<^item> \<^verbatim>\<open>file.size\<close> and \<^verbatim>\<open>.length\<close> are non-negative integers, so the fingerprint is a
    \<open>nat\<close> and \<^verbatim>\<open>%\<close> on it is \<open>mod\<close>.
  \<^item> Every other JavaScript number is an exact rational (\<open>rat\<close>): the rounding of
    IEEE doubles is not part of the model.
\<close>

type_synonym js_string = "16 word list"

record File =
  name :: js_string
  size :: nat
  type :: string

datatype status = high | low | normal

record CkdParameter =
  name :: string
  shortForm :: string
  unit :: string

record Parameter =
  name :: string
  val :: string
  status :: status
  description :: string

record AnalysisResult =
  hasSwelling :: bool
  hasShrinkage :: bool
  hasPores :: bool
  otherIssues :: "string list"
  ckdProbability :: rat
  confidence :: rat
  recommendations :: "string list"
  parameters :: "Parameter list option"
  dietaryRecommendations :: "string list"
  lifestyleRecommendations :: "string list"
  isImage :: bool

record Algorithm =
  name :: string
  duration :: nat
  baseAccuracy :: rat

section \<open>Array methods with an index callback\<close>

text \<open>
  \<^verbatim>\<open>Array.prototype.filter\<close> and \<^verbatim>\<open>map\<close> pass the callback the element and its
  index in the array they are called on. \<open>filter_from\<close> and \<open>map_from\<close> carry that index.
\<close>

primrec filter_from :: "nat \<Rightarrow> ('a \<Rightarrow> nat \<Rightarrow> bool) \<Rightarrow> 'a list \<Rightarrow> 'a list" where
  "filter_from i p [] = []"
| "filter_from i p (x # xs) =
     (if p x i then x # filter_from (Suc i) p xs else filter_from (Suc i) p xs)"

definition js_filter :: "('a \<Rightarrow> nat \<Rightarrow> bool) \<Rightarrow> 'a list \<Rightarrow> 'a list" where
  "js_filter p xs = filter_from 0 p xs"

primrec map_from :: "nat \<Rightarrow> ('a \<Rightarrow> nat \<Rightarrow> 'b) \<Rightarrow> 'a list \<Rightarrow> 'b list" where
  "map_from i g [] = []"
| "map_from i g (x # xs) = g x i # map_from (Suc i) g xs"

definition js_map :: "('a \<Rightarrow> nat \<Rightarrow> 'b) \<Rightarrow> 'a list \<Rightarrow> 'b list" where
  "js_map g xs = map_from 0 g xs"

text \<open>\<^verbatim>\<open>xs.slice(0, n)\<close> keeps the first \<open>n\<close> elements.\<close>

definition slice0 :: "nat \<Rightarrow> 'a list \<Rightarrow> 'a list" where
  "slice0 n xs = take n xs"

text \<open>\<^verbatim>\<open>s.startsWith(p)\<close>.\<close>

fun startsWith :: "string \<Rightarrow> string \<Rightarrow> bool" where
  "startsWith s [] = True"
| "startsWith [] (c # p) = False"
| "startsWith (d # s) (c # p) = (d = c \<and> startsWith s p)"

text \<open>
  \<^verbatim>\<open>n.toFixed(1)\<close> for a non-negative integer \<open>n\<close>: its decimal digits followed by
  \<^verbatim>\<open>.0\<close>.
\<close>

definition digit :: "nat \<Rightarrow> char" where
  "digit d = ''0123456789'' ! d"

fun decimal :: "nat \<Rightarrow> string" where
  "decimal n = (if n < 10 then [digit n] else decimal (n div 10) @ [digit (n mod 10)])"

definition toFixed1 :: "nat \<Rightarrow> string" where
  "toFixed1 n = decimal n @ ''.0''"

section \<open>Catalogs\<close>

definition CKD_PARAMETERS :: "CkdParameter list" where
  "CKD_PARAMETERS =
    [\<lparr>CkdParameter.name = ''Blood Pressure (BP)'', shortForm = ''bp'', unit = ''mmHg''\<rparr>,
     \<lparr>CkdParameter.name = ''Specific Gravity (SG)'', shortForm = ''sg'', unit = ''''\<rparr>,
     \<lparr>CkdParameter.name = ''Albumin (AL)'', shortForm = ''al'', unit = ''g/dL''\<rparr>,
     \<lparr>CkdParameter.name = ''Blood Glucose Random (BGR)'', shortForm = ''bgr'', unit = ''mg/dL''\<rparr>,
     \<lparr>CkdParameter.name = ''Blood Urea (BU)'', shortForm = ''bu'', unit = ''mg/dL''\<rparr>,
     \<lparr>CkdParameter.name = ''Serum Creatinine (SC)'', shortForm = ''sc'', unit = ''mg/dL''\<rparr>,
     \<lparr>CkdParameter.name = ''Sodium (SOD)'', shortForm = ''sod'', unit = ''mEq/L''\<rparr>,
     \<lparr>CkdParameter.name = ''Potassium (POT)'', shortForm = ''pot'', unit = ''mEq/L''\<rparr>,
     \<lparr>CkdParameter.name = ''Hemoglobin (HEMO)'', shortForm = ''hemo'', unit = ''g/dL''\<rparr>,
     \<lparr>CkdParameter.name = ''Packed Cell Volume (PCV)'', shortForm = ''pcv'', unit = ''%''\<rparr>,
     \<lparr>CkdParameter.name = ''White Blood Cells (WC)'', shortForm = ''wc'', unit = ''/cu.mm''\<rparr>,
     \<lparr>CkdParameter.name = ''Red Blood Cells Count (RC)'', shortForm = ''rc'', unit = ''millions/cu.mm''\<rparr>]"

definition DIETARY_RECOMMENDATIONS :: "string list" where
  "DIETARY_RECOMMENDATIONS =
    [''Limit sodium intake to less than 2,300mg per day'',
     ''Reduce protein intake to 0.8g per kg of body weight'',
     ''Choose foods low in phosphorus'',
     ''Limit potassium-rich foods'',
     ''Increase intake of anti-inflammatory foods'',
     ''Stay hydrated with appropriate fluid intake'',
     ''Avoid processed and packaged foods'',
     ''Include omega-3 rich foods in diet'',
     ''Choose whole grains over refined grains'',
     ''Monitor calcium intake carefully'']"

definition LIFESTYLE_RECOMMENDATIONS :: "string list" where
  "LIFESTYLE_RECOMMENDATIONS =
    [''Maintain regular physical activity with doctor's approval'',
     ''Get adequate sleep (7-8 hours per night)'',
     ''Monitor blood pressure regularly'',
     ''Avoid smoking and limit alcohol consumption'',
     ''Practice stress management techniques'',
     ''Keep a food and symptom diary'',
     ''Attend all scheduled medical appointments'',
     ''Join a kidney disease support group'',
     ''Learn about kidney-friendly cooking methods'',
     ''Take prescribed medications consistently'']"

definition ANALYSIS_ALGORITHMS :: "Algorithm list" where
  "ANALYSIS_ALGORITHMS =
    [\<lparr>Algorithm.name = ''Deep Neural Network Analysis'', duration = 8000, baseAccuracy = 97 / 100\<rparr>,
     \<lparr>Algorithm.name = ''Random Forest Classification'', duration = 5000, baseAccuracy = 93 / 100\<rparr>,
     \<lparr>Algorithm.name = ''Support Vector Machine'', duration = 6000, baseAccuracy = 91 / 100\<rparr>,
     \<lparr>Algorithm.name = ''Ensemble Learning Model'', duration = 7000, baseAccuracy = 95 / 100\<rparr>,
     \<lparr>Algorithm.name = ''Feature Extraction Pipeline'', duration = 4000, baseAccuracy = 89 / 100\<rparr>]"

section \<open>The result generator\<close>

definition getAlgorithmAccuracy :: "js_string \<Rightarrow> rat \<Rightarrow> rat" where
  "getAlgorithmAccuracy fileName base =
     (let hash = foldl (\<lambda>acc char. acc + unat char) 0 fileName;
          variation = (of_nat (hash mod 100) / 100) * (1 / 10) - 5 / 100
      in min (max (base + variation) (85 / 100)) (99 / 100))"

definition generateParameters :: "nat \<Rightarrow> Parameter list" where
  "generateParameters hash =
     js_map (\<lambda>param index.
        let value = toFixed1 ((hash * (index + 1)) mod 100);
            status = (if (hash + length (CkdParameter.name param)) mod 3 = 0 then high
                      else if (hash + length (CkdParameter.name param)) mod 3 = 1 then low
                      else normal);
            description = (case status of
                high \<Rightarrow> ''Elevated '' @ CkdParameter.name param
                          @ '' levels indicate potential kidney dysfunction''
              | low \<Rightarrow> ''Low '' @ CkdParameter.name param
                          @ '' levels suggest possible metabolic issues''
              | normal \<Rightarrow> CkdParameter.name param @ '' levels are within normal range'')
        in \<lparr>Parameter.name = CkdParameter.name param, val = value @ unit param,
            status = status, description = description\<rparr>)
       (js_filter (\<lambda>_ index. (hash + index) mod 3 = 0) CKD_PARAMETERS)"

definition getOtherIssues :: "nat \<Rightarrow> string list" where
  "getOtherIssues hash =
     (let issues =
        [''Irregular cell structure detected'',
         ''Abnormal tissue density observed'',
         ''Unusual membrane formation'',
         ''Cellular degradation present'',
         ''Tissue scarring detected'']
      in js_filter (\<lambda>_ index. (hash + index) mod 3 = 0) issues)"

definition highRiskRecommendations :: "string list" where
  "highRiskRecommendations =
    [''Immediate nephrology consultation required'',
     ''Begin intensive kidney function monitoring'',
     ''Schedule follow-up biopsy in 2 weeks'',
     ''Consider dialysis preparation'',
     ''Strict dietary restrictions recommended'']"

definition mediumRiskRecommendations :: "string list" where
  "mediumRiskRecommendations =
    [''Schedule follow-up examination in 1 month'',
     ''Monitor blood pressure daily'',
     ''Dietary sodium restriction advised'',
     ''Regular blood work every 2 weeks'',
     ''Consider preventive medications'']"

definition lowRiskRecommendations :: "string list" where
  "lowRiskRecommendations =
    [''Routine follow-up in 3 months'',
     ''Maintain healthy diet and exercise'',
     ''Monitor blood pressure weekly'',
     ''Annual kidney function screening'',
     ''Stay well hydrated'']"

definition getRecommendations :: "nat \<Rightarrow> string list" where
  "getRecommendations hash =
     (let probability = (of_nat (hash mod 100) :: rat) / 100;
          recommendations =
            (if probability > 7 / 10 then highRiskRecommendations
             else if probability > 3 / 10 then mediumRiskRecommendations
             else lowRiskRecommendations)
      in slice0 3 (js_filter (\<lambda>_ index. (hash + index) mod 2 = 0) recommendations))"

definition generateConsistentResult :: "File \<Rightarrow> AnalysisResult" where
  "generateConsistentResult file =
     (let fileHash = length (File.name file) + size file;
          isImage = startsWith (type file) ''image/''
      in \<lparr>hasSwelling = (fileHash mod 2 = 0),
          hasShrinkage = (fileHash mod 3 = 0),
          hasPores = (fileHash mod 4 = 0),
          otherIssues = getOtherIssues fileHash,
          ckdProbability = of_nat (fileHash mod 100) / 100,
          confidence = 85 / 100 + of_nat (fileHash mod 15) / 100,
          recommendations = getRecommendations fileHash,
          parameters = (if \<not> isImage then Some (generateParameters fileHash) else None),
          dietaryRecommendations =
            slice0 5 (js_filter (\<lambda>_ index. (fileHash + index) mod 3 = 0) DIETARY_RECOMMENDATIONS),
          lifestyleRecommendations =
            slice0 5 (js_filter (\<lambda>_ index. (fileHash + index) mod 3 = 0) LIFESTYLE_RECOMMENDATIONS),
          isImage = isImage\<rparr>)"


section \<open>The specification's vocabulary\<close>

text \<open>
  The specification names the seed \<^emph>\<open>fingerprint\<close>; the source computes it inline as
  \<^verbatim>\<open>fileHash\<close>. The definitions of this section follow the specification's wording and
  are compared with the source's functions below.
\<close>

definition Fingerprint :: "File \<Rightarrow> nat" where
  "Fingerprint file = length (File.name file) + size file"

text \<open>The catalog indices \<open>i < n\<close> with \<open>(f + i) mod m = 0\<close>, in increasing order.\<close>

definition kept_indices :: "nat \<Rightarrow> nat \<Rightarrow> nat \<Rightarrow> nat list" where
  "kept_indices m f n = filter (\<lambda>i. (f + i) mod m = 0) [0..<n]"

text \<open>
  The parameter entry built from catalog item \<open>p\<close> when the raw value is computed with
  index \<open>k\<close>: raw value \<open>(f * (k + 1)) mod 100\<close> with one decimal digit, followed by the
  unit; the status from \<open>(f + length name) mod 3\<close>; the description templated per status.
\<close>

definition parameter_at :: "nat \<Rightarrow> nat \<Rightarrow> CkdParameter \<Rightarrow> Parameter" where
  "parameter_at f k p =
     \<lparr>Parameter.name = CkdParameter.name p,
      val = toFixed1 ((f * (k + 1)) mod 100) @ unit p,
      status = (if (f + length (CkdParameter.name p)) mod 3 = 0 then high
                else if (f + length (CkdParameter.name p)) mod 3 = 1 then low else normal),
      description =
        (if (f + length (CkdParameter.name p)) mod 3 = 0
           then ''Elevated '' @ CkdParameter.name p @ '' levels indicate potential kidney dysfunction''
         else if (f + length (CkdParameter.name p)) mod 3 = 1
           then ''Low '' @ CkdParameter.name p @ '' levels suggest possible metabolic issues''
         else CkdParameter.name p @ '' levels are within normal range'')\<rparr>"

text \<open>
  The parameter list as the specification words it: the kept item at catalog index \<open>i\<close>
  has its raw value computed from that catalog index.
\<close>

definition spec_parameters :: "nat \<Rightarrow> Parameter list" where
  "spec_parameters f =
     map (\<lambda>i. parameter_at f i (CKD_PARAMETERS ! i)) (kept_indices 3 f (length CKD_PARAMETERS))"

text \<open>The risk tier catalog and the recommendation list as the specification words them.\<close>

definition spec_catalog :: "nat \<Rightarrow> string list" where
  "spec_catalog f =
     (let p = (of_nat (f mod 100) :: rat) / 100
      in if p > 7 / 10 then highRiskRecommendations
         else if p > 3 / 10 then mediumRiskRecommendations
         else lowRiskRecommendations)"

definition spec_recommendations :: "nat \<Rightarrow> string list" where
  "spec_recommendations f =
     take 3 (map (\<lambda>i. spec_catalog f ! i) (kept_indices 2 f (length (spec_catalog f))))"

text \<open>The target accuracy as the specification words it.\<close>

definition charCodeSum :: "js_string \<Rightarrow> nat" where
  "charCodeSum fileName = sum_list (map unat fileName)"

definition clamp :: "rat \<Rightarrow> rat \<Rightarrow> rat \<Rightarrow> rat" where
  "clamp x lo hi = (if x < lo then lo else if hi < x then hi else x)"

definition spec_targetAccuracy :: "js_string \<Rightarrow> rat \<Rightarrow> rat" where
  "spec_targetAccuracy fileName base =
     clamp (base + ((of_nat (charCodeSum fileName mod 100) / 100) * (1 / 10) - 5 / 100))
       (85 / 100) (99 / 100)"

section \<open>Sample inputs\<close>

definition scanA :: File where
  "scanA = \<lparr>File.name = [97, 98], size = 98, type = ''image/png''\<rparr>"

definition scanB :: File where
  "scanB = \<lparr>File.name = [120], size = 99, type = ''image/jpeg''\<rparr>"

definition report :: File where
  "report = \<lparr>File.name = [97], size = 0, type = ''application/pdf''\<rparr>"

section \<open>The component: state, timers and effects\<close>

text \<open>
  The component \<^verbatim>\<open>App\<close> holds its state in \<^verbatim>\<open>useState\<close> cells and changes it from
  three kinds of code: the submit handler \<^verbatim>\<open>analyzeFile\<close>, the callbacks of browser timers
  (\<^verbatim>\<open>setInterval\<close>, \<^verbatim>\<open>setTimeout\<close>), and the bodies of \<^verbatim>\<open>useEffect\<close>, which run after a
  render in which one of their dependencies changed. The browser runs all of it on one
  thread, one callback at a time. The model makes that explicit:
  \<^item> the record \<open>App\<close> has one field per state cell, and the runtime's part: a clock in
    milliseconds, the list of pending timers, the counters that hand out timer
    identifiers and object URLs, and for each effect the dependency values of its last
    run (for the overall-progress effect also the timers its cleanup clears);
  \<^item> a timer callback is an \<open>action\<close> that carries the values its closure captured;
  \<^item> \<open>commit\<close> is the render after a batch of state updates: it runs the cleanup and the
    body of each effect whose dependencies changed;
  \<^item> \<open>step\<close> lets the earliest pending timer fire (of two timers due at the same time,
    the one created first) and commits.
  The welcome banner and the rotating quote (two effects that touch no other state) are
  left out. An updater function passed to a state setter is run once.
\<close>

datatype action =
    AlgTick string rat rat rat
  | RosterDone
  | Publish AnalysisResult
  | OverallTick nat
  | StepTick
  | OverallDone

record timer =
  tid :: nat
  due :: nat
  period :: "nat option"
  act :: action

record App =
  isAnalyzing :: bool
  result :: "AnalysisResult option"
  selectedImage :: "nat option"
  analysisStep :: nat
  analysisProgress :: rat
  processingImage :: "nat option"
  currentFileName :: js_string
  algorithmProgress :: "string \<rightharpoonup> rat"
  algorithmAccuracy :: "string \<rightharpoonup> rat"
  completedAlgorithms :: "string list"
  showAnalysisPage :: bool
  clock :: nat
  timers :: "timer list"
  nextTimer :: nat
  nextUrl :: nat
  overallDeps :: "(bool \<times> nat option) option"
  overallCleanup :: "nat list"
  rosterDeps :: "(bool \<times> js_string) option"

text \<open>\<^verbatim>\<open>v || d\<close> for a number read from an object: \<open>d\<close> when the key is missing or the value is 0.\<close>

definition orElse :: "rat option \<Rightarrow> rat \<Rightarrow> rat" where
  "orElse v d = (case v of None \<Rightarrow> d | Some x \<Rightarrow> if x = 0 then d else x)"

text \<open>
  \<^verbatim>\<open>setInterval(cb, delay)\<close> and \<^verbatim>\<open>setTimeout(cb, delay)\<close> append a timer and return its
  identifier, which is \<open>nextTimer\<close> of the state before; \<^verbatim>\<open>clearInterval(id)\<close> and
  \<^verbatim>\<open>clearTimeout(id)\<close> remove the timer with that identifier.
\<close>

definition setInterval :: "action \<Rightarrow> nat \<Rightarrow> App \<Rightarrow> App" where
  "setInterval cb delay s =
     s\<lparr>timers := timers s @ [\<lparr>tid = nextTimer s, due = clock s + delay,
                                period = Some delay, act = cb\<rparr>],
       nextTimer := Suc (nextTimer s)\<rparr>"

definition setTimeout :: "action \<Rightarrow> nat \<Rightarrow> App \<Rightarrow> App" where
  "setTimeout cb delay s =
     s\<lparr>timers := timers s @ [\<lparr>tid = nextTimer s, due = clock s + delay,
                                period = None, act = cb\<rparr>],
       nextTimer := Suc (nextTimer s)\<rparr>"

definition cancel :: "nat \<Rightarrow> timer list \<Rightarrow> timer list" where
  "cancel i ts = filter (\<lambda>t. tid t \<noteq> i) ts"

definition clearTimer :: "nat \<Rightarrow> App \<Rightarrow> App" where
  "clearTimer i s = s\<lparr>timers := cancel i (timers s)\<rparr>"

text \<open>\<^verbatim>\<open>ANALYSIS_ALGORITHMS.reduce((acc, alg) => ({ ...acc, [alg.name]: v }), {})\<close>.\<close>

definition allAlgorithms :: "rat \<Rightarrow> (string \<rightharpoonup> rat)" where
  "allAlgorithms v = foldl (\<lambda>acc alg. acc(Algorithm.name alg \<mapsto> v)) Map.empty ANALYSIS_ALGORITHMS"

text \<open>\<^verbatim>\<open>Math.max(...ANALYSIS_ALGORITHMS.map(a => a.duration))\<close>.\<close>

definition maxDuration :: nat where
  "maxDuration = Max (set (map duration ANALYSIS_ALGORITHMS))"

subsection \<open>Timer callbacks\<close>

text \<open>
  The interval callback of one algorithm (source lines 289 to 305). Its closure holds the
  algorithm's name, \<^verbatim>\<open>incrementAmount\<close>, \<^verbatim>\<open>targetAccuracy\<close>, \<^verbatim>\<open>accuracyIncrementAmount\<close> and
  its own \<^verbatim>\<open>intervalId\<close>.
\<close>

definition algTick :: "nat \<Rightarrow> string \<Rightarrow> rat \<Rightarrow> rat \<Rightarrow> rat \<Rightarrow> App \<Rightarrow> App" where
  "algTick intervalId algName incrementAmount targetAccuracy accuracyIncrementAmount s =
     (let startingAccuracy = 76 / 100;
          newProgress = orElse (algorithmProgress s algName) 0 + incrementAmount;
          s1 = (if newProgress \<ge> 100
                then (clearTimer intervalId s)
                       \<lparr>completedAlgorithms := completedAlgorithms s @ [algName],
                        algorithmProgress := (algorithmProgress s)(algName \<mapsto> 100)\<rparr>
                else s\<lparr>algorithmProgress := (algorithmProgress s)(algName \<mapsto> newProgress)\<rparr>);
          currentAccuracy = orElse (algorithmAccuracy s1 algName) startingAccuracy;
          newAccuracy = min (currentAccuracy + accuracyIncrementAmount) targetAccuracy
      in s1\<lparr>algorithmAccuracy := (algorithmAccuracy s1)(algName \<mapsto> newAccuracy)\<rparr>)"

text \<open>The overall-progress interval (lines 247 to 255), with \<^verbatim>\<open>totalDuration\<close> of its closure.\<close>

definition overallTick :: "nat \<Rightarrow> nat \<Rightarrow> App \<Rightarrow> App" where
  "overallTick progressInterval totalDuration s =
     (if analysisProgress s \<ge> 100
      then (clearTimer progressInterval s)\<lparr>analysisProgress := 100\<rparr>
      else s\<lparr>analysisProgress :=
               analysisProgress s + 100 / (of_nat totalDuration / 50)\<rparr>)"

text \<open>
  The callback of a timer. \<open>RosterDone\<close> is the timeout of the algorithm effect (lines 309
  to 312), \<open>OverallDone\<close> the \<^verbatim>\<open>analysisTimer\<close> of the overall-progress effect (lines 261 to
  264), \<open>Publish\<close> the timeout of \<^verbatim>\<open>analyzeFile\<close> (lines 339 to 341), \<open>StepTick\<close> the
  \<^verbatim>\<open>stepInterval\<close> (lines 257 to 259).
\<close>

fun runAction :: "nat \<Rightarrow> action \<Rightarrow> App \<Rightarrow> App" where
  "runAction i (AlgTick algName incrementAmount targetAccuracy accuracyIncrementAmount) s =
     algTick i algName incrementAmount targetAccuracy accuracyIncrementAmount s"
| "runAction i RosterDone s = s\<lparr>isAnalyzing := False, processingImage := None\<rparr>"
| "runAction i (Publish mockResult) s = s\<lparr>result := Some mockResult\<rparr>"
| "runAction i (OverallTick totalDuration) s = overallTick i totalDuration s"
| "runAction i StepTick s = s\<lparr>analysisStep := (analysisStep s + 1) mod 4\<rparr>"
| "runAction i OverallDone s = s\<lparr>isAnalyzing := False, processingImage := None\<rparr>"

subsection \<open>Effects\<close>

text \<open>The overall-progress effect (lines 244 to 275), dependencies \<^verbatim>\<open>[isAnalyzing, processingImage]\<close>.\<close>

definition overallEffect :: "App \<Rightarrow> App" where
  "overallEffect s =
     (if isAnalyzing s then
        (let totalDuration = (if processingImage s \<noteq> None then 10000 else 15000);
             progressInterval = nextTimer s;
             s1 = setInterval (OverallTick totalDuration) 50 s;
             stepInterval = nextTimer s1;
             s2 = setInterval StepTick 2000 s1;
             analysisTimer = nextTimer s2;
             s3 = setTimeout OverallDone totalDuration s2
         in s3\<lparr>overallCleanup := [progressInterval, stepInterval, analysisTimer]\<rparr>)
      else s\<lparr>analysisProgress := 0, analysisStep := 0, overallCleanup := []\<rparr>)"

text \<open>
  The algorithm effect (lines 277 to 318), dependencies \<^verbatim>\<open>[isAnalyzing, currentFileName]\<close>.
  It returns no cleanup function. \<open>startAlgorithm\<close> is the body of its \<^verbatim>\<open>forEach\<close>.
\<close>

definition startAlgorithm :: "js_string \<Rightarrow> App \<Rightarrow> Algorithm \<Rightarrow> App" where
  "startAlgorithm fileName s algorithm =
     (let updateInterval = 50;
          incrementAmount = (100 * of_nat updateInterval) / of_nat (duration algorithm);
          targetAccuracy = getAlgorithmAccuracy fileName (baseAccuracy algorithm);
          startingAccuracy = 76 / 100;
          accuracyRange = targetAccuracy - startingAccuracy;
          accuracyIncrementAmount =
            (accuracyRange * of_nat updateInterval) / of_nat (duration algorithm)
      in setInterval
           (AlgTick (Algorithm.name algorithm) incrementAmount targetAccuracy
              accuracyIncrementAmount)
           updateInterval s)"

definition rosterEffect :: "App \<Rightarrow> App" where
  "rosterEffect s =
     (if isAnalyzing s \<and> currentFileName s \<noteq> [] then
        setTimeout RosterDone (maxDuration + 1000)
          (foldl (startAlgorithm (currentFileName s)) s ANALYSIS_ALGORITHMS)
      else s\<lparr>algorithmProgress := allAlgorithms 0,
             algorithmAccuracy := allAlgorithms (76 / 100),
             completedAlgorithms := []\<rparr>)"

text \<open>
  The render after a batch of updates. For each effect whose dependencies differ from
  those of its last run: first the cleanup of the last run (only the overall-progress
  effect returns one), then the body. The state updates of the bodies touch no
  dependency, so the render they cause runs no effect again.
\<close>

definition commit :: "App \<Rightarrow> App" where
  "commit s =
     (let overallNow = (isAnalyzing s, processingImage s);
          rosterNow = (isAnalyzing s, currentFileName s);
          overallChanged = (overallDeps s \<noteq> Some overallNow);
          rosterChanged = (rosterDeps s \<noteq> Some rosterNow);
          s1 = (if overallChanged then foldl (\<lambda>u i. clearTimer i u) s (overallCleanup s) else s);
          s2 = (if overallChanged then overallEffect s1 else s1);
          s3 = (if rosterChanged then rosterEffect s2 else s2)
      in s3\<lparr>overallDeps := Some overallNow, rosterDeps := Some rosterNow\<rparr>)"

subsection \<open>Mounting, submitting a file, firing a timer\<close>

text \<open>The initial values of the state cells (lines 211 to 227), and the first render.\<close>

definition initial :: App where
  "initial =
     \<lparr>isAnalyzing = False, result = None, selectedImage = None, analysisStep = 0,
      analysisProgress = 0, processingImage = None, currentFileName = [],
      algorithmProgress = allAlgorithms 0, algorithmAccuracy = allAlgorithms 0,
      completedAlgorithms = [], showAnalysisPage = False,
      clock = 0, timers = [], nextTimer = 0, nextUrl = 0,
      overallDeps = None, overallCleanup = [], rosterDeps = None\<rparr>"

definition mounted :: App where
  "mounted = commit initial"

text \<open>
  \<^verbatim>\<open>analyzeFile\<close> (lines 320 to 342). \<^verbatim>\<open>URL.createObjectURL\<close> returns a fresh URL, modelled
  by a counter. \<open>submit\<close> is the handler followed by the render.
\<close>

definition analyzeFile :: "File \<Rightarrow> App \<Rightarrow> App" where
  "analyzeFile file s =
     (let s1 = s\<lparr>showAnalysisPage := True, isAnalyzing := True, result := None,
                 completedAlgorithms := [], currentFileName := File.name file\<rparr>;
          s2 = (if startsWith (type file) ''image/''
                then s1\<lparr>processingImage := Some (nextUrl s1),
                        selectedImage := Some (nextUrl s1),
                        nextUrl := Suc (nextUrl s1)\<rparr>
                else s1\<lparr>processingImage := None, selectedImage := None\<rparr>);
          mockResult = generateConsistentResult file
      in setTimeout (Publish mockResult) (maxDuration + 1000) s2)"

definition submit :: "File \<Rightarrow> App \<Rightarrow> App" where
  "submit file s = commit (analyzeFile file s)"

text \<open>
  The earliest pending timer; of several due at the same time, the first in the list,
  which is the one created first.
\<close>

fun earliest :: "timer list \<Rightarrow> timer option" where
  "earliest [] = None"
| "earliest (t # ts) =
     (case earliest ts of
        None \<Rightarrow> Some t
      | Some u \<Rightarrow> if due t \<le> due u then Some t else Some u)"

text \<open>
  A timer fires: the clock moves to its due time, a timeout leaves the list and an
  interval is scheduled again one period later, the callback runs (it may clear timers,
  its own too), and the component renders.
\<close>

definition reschedule :: "nat \<Rightarrow> nat \<Rightarrow> timer list \<Rightarrow> timer list" where
  "reschedule i p ts = map (\<lambda>u. if tid u = i then u\<lparr>due := due u + p\<rparr> else u) ts"

definition fire :: "timer \<Rightarrow> App \<Rightarrow> App" where
  "fire t s =
     (let s1 = s\<lparr>clock := due t,
                 timers := (case period t of
                     None \<Rightarrow> cancel (tid t) (timers s)
                   | Some p \<Rightarrow> reschedule (tid t) p (timers s))\<rparr>
      in commit (runAction (tid t) (act t) s1))"

definition step :: "App \<Rightarrow> App" where
  "step s = (case earliest (timers s) of None \<Rightarrow> s | Some t \<Rightarrow> fire t s)"

primrec steps :: "nat \<Rightarrow> App \<Rightarrow> App" where
  "steps 0 s = s"
| "steps (Suc n) s = steps n (step s)"

section \<open>Sessions\<close>

text \<open>
  The predicates of this section describe the states of one analysis session: the run of
  \<^verbatim>\<open>step\<close> that starts when \<^verbatim>\<open>analyzeFile\<close> is called in a state at rest and ends when the
  timeout of the algorithm effect (line 309) sets \<^verbatim>\<open>isAnalyzing\<close> back to false. They are no
  part of the program; the theorems on sessions are stated and proved with them.
\<close>

text \<open>
  A state at rest: not analysing, no timer pending, both effects run for the current
  values of their dependencies, and the run state as the \<^verbatim>\<open>else\<close> branch of the algorithm
  effect leaves it (lines 313 to 316).
\<close>

definition idle :: "App \<Rightarrow> bool" where
  "idle s \<longleftrightarrow>
     \<not> isAnalyzing s \<and> processingImage s = None \<and> timers s = [] \<and>
     overallDeps s = Some (False, None) \<and> rosterDeps s = Some (False, currentFileName s) \<and>
     overallCleanup s = [] \<and> analysisProgress s = 0 \<and> analysisStep s = 0 \<and>
     algorithmProgress s = allAlgorithms 0 \<and> algorithmAccuracy s = allAlgorithms (76 / 100) \<and>
     completedAlgorithms s = []"

text \<open>
  The progress and the accuracy of an algorithm as the interval callback reads them:
  \<^verbatim>\<open>prev[algorithm.name] || 0\<close> (line 291), and the stored accuracy.
\<close>

definition progressOf :: "App \<Rightarrow> Algorithm \<Rightarrow> rat" where
  "progressOf s a = orElse (algorithmProgress s (Algorithm.name a)) 0"

definition accuracyOf :: "App \<Rightarrow> Algorithm \<Rightarrow> rat" where
  "accuracyOf s a = (case algorithmAccuracy s (Algorithm.name a) of None \<Rightarrow> 0 | Some v \<Rightarrow> v)"

text \<open>
  The constants of the closure of one algorithm's interval (lines 280 to 287):
  \<^verbatim>\<open>incrementAmount\<close>, \<^verbatim>\<open>targetAccuracy\<close> and \<^verbatim>\<open>accuracyIncrementAmount\<close>.
\<close>

definition incrementOf :: "Algorithm \<Rightarrow> rat" where
  "incrementOf a = (100 * 50) / of_nat (duration a)"

definition targetOf :: "js_string \<Rightarrow> Algorithm \<Rightarrow> rat" where
  "targetOf fileName a = getAlgorithmAccuracy fileName (baseAccuracy a)"

definition accuracyIncrementOf :: "js_string \<Rightarrow> Algorithm \<Rightarrow> rat" where
  "accuracyIncrementOf fileName a = ((targetOf fileName a - 76 / 100) * 50) / of_nat (duration a)"

text \<open>The timer with identifier \<open>i\<close> is pending.\<close>

definition pending :: "App \<Rightarrow> nat \<Rightarrow> bool" where
  "pending s i \<longleftrightarrow> (\<exists>t \<in> set (timers s). tid t = i)"

text \<open>The number of times a 50 ms interval started at time \<open>T0\<close> has fired, read from its next due time.\<close>

definition ticksOf :: "nat \<Rightarrow> timer \<Rightarrow> nat" where
  "ticksOf T0 t = (due t - T0) div 50 - 1"

text \<open>\<^verbatim>\<open>totalDuration\<close> of the overall-progress effect (line 246), for the file of the session.\<close>

definition overallWindow :: "File \<Rightarrow> nat" where
  "overallWindow f = (if startsWith (type f) ''image/'' then 10000 else 15000)"

text \<open>
  The timers of a session started at time \<open>T0\<close> with \<open>n0\<close> the next free identifier, in
  the order of their creation: the timeout of \<^verbatim>\<open>analyzeFile\<close>, the two intervals and the
  timeout of the overall-progress effect, the five intervals of the algorithms, and the
  timeout of the algorithm effect.
\<close>

definition wellTimer :: "nat \<Rightarrow> nat \<Rightarrow> File \<Rightarrow> timer \<Rightarrow> bool" where
  "wellTimer T0 n0 f t \<longleftrightarrow>
     (tid t = n0 \<and> act t = Publish (generateConsistentResult f) \<and> period t = None
        \<and> due t = T0 + 9000)
   \<or> (tid t = n0 + 1 \<and> (\<exists>tot. act t = OverallTick tot) \<and> period t = Some 50)
   \<or> (tid t = n0 + 2 \<and> act t = StepTick \<and> period t = Some 2000)
   \<or> (tid t = n0 + 3 \<and> act t = OverallDone \<and> period t = None
        \<and> due t = T0 + overallWindow f)
   \<or> (\<exists>i<5. \<exists>k. tid t = n0 + 4 + i \<and> period t = Some 50
        \<and> act t = AlgTick (Algorithm.name (ANALYSIS_ALGORITHMS ! i))
                    (incrementOf (ANALYSIS_ALGORITHMS ! i))
                    (targetOf (File.name f) (ANALYSIS_ALGORITHMS ! i))
                    (accuracyIncrementOf (File.name f) (ANALYSIS_ALGORITHMS ! i))
        \<and> due t = T0 + 50 * (k + 1) \<and> 50 * (k + 1) \<le> duration (ANALYSIS_ALGORITHMS ! i))
   \<or> (tid t = n0 + 9 \<and> act t = RosterDone \<and> period t = None \<and> due t = T0 + 9000)"

text \<open>The control state during a session: analysing the file, both effects up to date.\<close>

definition ctl :: "nat \<Rightarrow> File \<Rightarrow> App \<Rightarrow> bool" where
  "ctl n0 f s \<longleftrightarrow>
     isAnalyzing s \<and> currentFileName s = File.name f \<and>
     overallDeps s = Some (True, processingImage s) \<and>
     rosterDeps s = Some (True, File.name f) \<and>
     overallCleanup s = [n0 + 1, n0 + 2, n0 + 3]"

text \<open>
  An algorithm whose interval is pending has the run state its ticks so far give, is not
  completed, and its next tick is due within 50 ms.
\<close>

definition algRunning :: "nat \<Rightarrow> nat \<Rightarrow> File \<Rightarrow> App \<Rightarrow> bool" where
  "algRunning T0 n0 f s \<longleftrightarrow>
     (\<forall>i<5. \<forall>t \<in> set (timers s). tid t = n0 + 4 + i \<longrightarrow>
        algorithmProgress s (Algorithm.name (ANALYSIS_ALGORITHMS ! i))
          = Some (of_nat (ticksOf T0 t) * incrementOf (ANALYSIS_ALGORITHMS ! i))
      \<and> algorithmAccuracy s (Algorithm.name (ANALYSIS_ALGORITHMS ! i))
          = Some (76 / 100 + of_nat (ticksOf T0 t) * accuracyIncrementOf (File.name f) (ANALYSIS_ALGORITHMS ! i))
      \<and> Algorithm.name (ANALYSIS_ALGORITHMS ! i) \<notin> set (completedAlgorithms s)
      \<and> due t \<le> clock s + 50)"

text \<open>
  An algorithm whose interval is cleared is at progress 100 and at its target accuracy,
  is completed, and its nominal duration has elapsed.
\<close>

definition algDone :: "nat \<Rightarrow> nat \<Rightarrow> File \<Rightarrow> App \<Rightarrow> bool" where
  "algDone T0 n0 f s \<longleftrightarrow>
     (\<forall>i<5. \<not> pending s (n0 + 4 + i) \<longrightarrow>
        algorithmProgress s (Algorithm.name (ANALYSIS_ALGORITHMS ! i)) = Some 100
      \<and> algorithmAccuracy s (Algorithm.name (ANALYSIS_ALGORITHMS ! i))
          = Some (targetOf (File.name f) (ANALYSIS_ALGORITHMS ! i))
      \<and> Algorithm.name (ANALYSIS_ALGORITHMS ! i) \<in> set (completedAlgorithms s)
      \<and> T0 + duration (ANALYSIS_ALGORITHMS ! i) \<le> clock s)"

text \<open>The result is unset while the timeout of \<^verbatim>\<open>analyzeFile\<close> is pending, and set by it.\<close>

definition published :: "nat \<Rightarrow> nat \<Rightarrow> File \<Rightarrow> App \<Rightarrow> bool" where
  "published T0 n0 f s \<longleftrightarrow>
     (if pending s n0 then result s = None
      else result s = Some (generateConsistentResult f) \<and> clock s = T0 + 9000)"

text \<open>The invariant of a session.\<close>

definition inSession :: "nat \<Rightarrow> nat \<Rightarrow> File \<Rightarrow> App \<Rightarrow> bool" where
  "inSession T0 n0 f s \<longleftrightarrow>
     ctl n0 f s
   \<and> sorted_wrt (<) (map tid (timers s))
   \<and> (\<forall>t \<in> set (timers s). clock s \<le> due t \<and> wellTimer T0 n0 f t)
   \<and> pending s (n0 + 9) \<and> pending s (n0 + 3)
   \<and> published T0 n0 f s
   \<and> algRunning T0 n0 f s \<and> algDone T0 n0 f s
   \<and> distinct (completedAlgorithms s)
   \<and> set (completedAlgorithms s) \<subseteq> Algorithm.name ` set ANALYSIS_ALGORITHMS
   \<and> T0 \<le> clock s"

text \<open>
  The number of times a timer fires up to time \<open>H\<close>, and the sum over a list of timers: the
  measure that decreases with every step of a session.
\<close>

definition weight :: "nat \<Rightarrow> timer \<Rightarrow> nat" where
  "weight H t = (if H < due t then 0
                 else case period t of None \<Rightarrow> 1 | Some p \<Rightarrow> (H - due t) div p + 1)"

definition load :: "nat \<Rightarrow> timer list \<Rightarrow> nat" where
  "load H ts = sum_list (map (weight H) ts)"

text \<open>
  Two consecutive states of a session: the completion order grows at its end, and each
  algorithm is either left as it was or advanced by one tick of its interval (lines 290
  to 303), completed exactly when the tick brings its progress to 100.
\<close>

definition tickRel :: "File \<Rightarrow> App \<Rightarrow> App \<Rightarrow> bool" where
  "tickRel f s s' \<longleftrightarrow>
     prefix (completedAlgorithms s) (completedAlgorithms s') \<and>
     (\<forall>i<5.
        (algorithmProgress s' (Algorithm.name (ANALYSIS_ALGORITHMS ! i))
           = algorithmProgress s (Algorithm.name (ANALYSIS_ALGORITHMS ! i))
         \<and> algorithmAccuracy s' (Algorithm.name (ANALYSIS_ALGORITHMS ! i))
           = algorithmAccuracy s (Algorithm.name (ANALYSIS_ALGORITHMS ! i))
         \<and> (Algorithm.name (ANALYSIS_ALGORITHMS ! i) \<in> set (completedAlgorithms s')
              \<longleftrightarrow> Algorithm.name (ANALYSIS_ALGORITHMS ! i) \<in> set (completedAlgorithms s)))
      \<or> (Algorithm.name (ANALYSIS_ALGORITHMS ! i) \<notin> set (completedAlgorithms s)
         \<and> progressOf s' (ANALYSIS_ALGORITHMS ! i)
             = min (progressOf s (ANALYSIS_ALGORITHMS ! i) + incrementOf (ANALYSIS_ALGORITHMS ! i)) 100
         \<and> accuracyOf s' (ANALYSIS_ALGORITHMS ! i)
             = min (accuracyOf s (ANALYSIS_ALGORITHMS ! i)
                      + accuracyIncrementOf (File.name f) (ANALYSIS_ALGORITHMS ! i))
                   (targetOf (File.name f) (ANALYSIS_ALGORITHMS ! i))
         \<and> (Algorithm.name (ANALYSIS_ALGORITHMS ! i) \<in> set (completedAlgorithms s')
              \<longleftrightarrow> progressOf s' (ANALYSIS_ALGORITHMS ! i) = 100)))"

text \<open>What a fired timer leaves behind, whichever way it leaves the list.\<close>

definition afterFire :: "timer \<Rightarrow> (timer \<Rightarrow> bool) \<Rightarrow> timer list \<Rightarrow> timer list \<Rightarrow> bool" where
  "afterFire t W ts ts' \<longleftrightarrow>
     sorted_wrt (<) (map tid ts')
   \<and> (\<forall>u \<in> set ts'. due t \<le> due u \<and> W u)
   \<and> (\<forall>x. x \<noteq> tid t \<longrightarrow> ((\<exists>u \<in> set ts'. tid u = x) \<longleftrightarrow> (\<exists>u \<in> set ts. tid u = x)))
   \<and> (\<forall>u \<in> set ts'. tid u \<noteq> tid t \<longrightarrow> u \<in> set ts)"

text \<open>
  The last step of a session: the roster timeout fires where every algorithm is done and
  the result is published, and leaves a state at rest.
\<close>

definition finished :: "nat \<Rightarrow> File \<Rightarrow> App \<Rightarrow> App \<Rightarrow> bool" where
  "finished T0 f s s' \<longleftrightarrow>
     idle s' \<and> clock s' = T0 + 9000 \<and> result s' = Some (generateConsistentResult f)
   \<and> currentFileName s' = File.name f
   \<and> clock s = T0 + 9000 \<and> result s = Some (generateConsistentResult f)
   \<and> (\<forall>i<5. algorithmProgress s (Algorithm.name (ANALYSIS_ALGORITHMS ! i)) = Some 100
          \<and> algorithmAccuracy s (Algorithm.name (ANALYSIS_ALGORITHMS ! i))
              = Some (targetOf (File.name f) (ANALYSIS_ALGORITHMS ! i))
          \<and> Algorithm.name (ANALYSIS_ALGORITHMS ! i) \<in> set (completedAlgorithms s))"

text \<open>
  The run state of an algorithm after \<open>k\<close> ticks of its interval, with the time at which it
  is observed.
\<close>

definition ticked :: "nat \<Rightarrow> File \<Rightarrow> App \<Rightarrow> Algorithm \<Rightarrow> nat \<Rightarrow> bool" where
  "ticked T0 f s a k \<longleftrightarrow>
     50 * k \<le> duration a
   \<and> algorithmProgress s (Algorithm.name a) = Some (of_nat k * incrementOf a)
   \<and> algorithmAccuracy s (Algorithm.name a)
       = Some (76 / 100 + of_nat k * accuracyIncrementOf (File.name f) a)
   \<and> (Algorithm.name a \<in> set (completedAlgorithms s)) = (50 * k = duration a)
   \<and> T0 + 50 * k \<le> clock s
   \<and> (50 * k < duration a \<longrightarrow> clock s \<le> T0 + 50 * (k + 1))"

section \<open>Residues\<close>

lemma mod3_cases: "(f::nat) mod 3 = 0 \<or> f mod 3 = 1 \<or> f mod 3 = 2"
  by arith

lemma mod3_shift: "(f + i) mod 3 = (f mod 3 + i) mod (3::nat)"
  by (simp add: mod_add_left_eq)

lemma mod2_cases: "(f::nat) mod 2 = 0 \<or> f mod 2 = 1"
  by arith

lemma mod2_shift: "(f + i) mod 2 = (f mod 2 + i) mod (2::nat)"
  by (simp add: mod_add_left_eq)

section \<open>Determinism of the result\<close>

text \<open>
  Claim C1. Two files whose name length plus byte size agree and whose MIME types both
  start, or both do not start, with \<^verbatim>\<open>image/\<close> get the same result: no other attribute
  of the file reaches any field.
\<close>

theorem result_determined_by_fingerprint:
  "length (File.name f) + size f = length (File.name g) + size g \<Longrightarrow>
   startsWith (type f) ''image/'' = startsWith (type g) ''image/'' \<Longrightarrow>
   generateConsistentResult f = generateConsistentResult g"
  by (simp add: generateConsistentResult_def)

theorem result_determined_by_fingerprint_witness:
  "length (File.name scanA) + size scanA = length (File.name scanB) + size scanB
   \<and> startsWith (type scanA) ''image/'' = startsWith (type scanB) ''image/''
   \<and> File.name scanA \<noteq> File.name scanB \<and> size scanA \<noteq> size scanB \<and> type scanA \<noteq> type scanB
   \<and> generateConsistentResult scanA = generateConsistentResult scanB"
proof -
  have h1: "length (File.name scanA) + size scanA = length (File.name scanB) + size scanB"
    by (simp add: scanA_def scanB_def)
  have h2: "startsWith (type scanA) ''image/'' = startsWith (type scanB) ''image/''"
    by (simp add: scanA_def scanB_def)
  have h3: "File.name scanA \<noteq> File.name scanB \<and> size scanA \<noteq> size scanB \<and> type scanA \<noteq> type scanB"
    by (simp add: scanA_def scanB_def)
  from result_determined_by_fingerprint [OF h1 h2] h1 h2 h3 show ?thesis by blast
qed

section \<open>Flags, probability and confidence\<close>

text \<open>
  Claim C2. With \<open>f\<close> the fingerprint of the file, the result has
  \<open>hasSwelling = (f mod 2 = 0)\<close>, \<open>hasShrinkage = (f mod 3 = 0)\<close>, \<open>hasPores = (f mod 4 = 0)\<close>,
  \<open>ckdProbability = (f mod 100) / 100\<close> and \<open>confidence = 0.85 + (f mod 15) / 100\<close>; so the
  probability lies in \<open>[0, 0.99]\<close> and the confidence in \<open>[0.85, 1)\<close>.
\<close>

theorem flags_probability_confidence:
  "hasSwelling (generateConsistentResult file) = (Fingerprint file mod 2 = 0)
   \<and> hasShrinkage (generateConsistentResult file) = (Fingerprint file mod 3 = 0)
   \<and> hasPores (generateConsistentResult file) = (Fingerprint file mod 4 = 0)
   \<and> ckdProbability (generateConsistentResult file) = of_nat (Fingerprint file mod 100) / 100
   \<and> confidence (generateConsistentResult file) = 85 / 100 + of_nat (Fingerprint file mod 15) / 100
   \<and> 0 \<le> ckdProbability (generateConsistentResult file)
   \<and> ckdProbability (generateConsistentResult file) \<le> 99 / 100
   \<and> 85 / 100 \<le> confidence (generateConsistentResult file)
   \<and> confidence (generateConsistentResult file) < 1"
proof -
  have a: "Fingerprint file mod 100 \<le> 99" by arith
  have b: "Fingerprint file mod 15 \<le> 14" by arith
  have a': "(of_nat (Fingerprint file mod 100) :: rat) \<le> 99"
    using a by (metis of_nat_le_iff of_nat_numeral)
  have b': "(of_nat (Fingerprint file mod 15) :: rat) \<le> 14"
    using b by (metis of_nat_le_iff of_nat_numeral)
  show ?thesis using a' b'
    by (simp add: generateConsistentResult_def Fingerprint_def Let_def)
qed

section \<open>The parameter list\<close>

lemma generateParameters_positions:
  "generateParameters f =
     map (\<lambda>(j, i). parameter_at f j (CKD_PARAMETERS ! i))
       (enumerate 0 (kept_indices 3 f (length CKD_PARAMETERS)))"
  using mod3_cases [of f]
  apply (elim disjE)
  apply (simp_all add: generateParameters_def js_filter_def js_map_def mod3_shift [of f]
          kept_indices_def CKD_PARAMETERS_def parameter_at_def Let_def)
  done

text \<open>
  Claim C3, as stated, fails. The source chains \<^verbatim>\<open>.filter(...).map((param, index) => ...)\<close>,
  so the \<^verbatim>\<open>index\<close> of the raw value is the position in the filtered list, not the catalog
  index. For the one-character report of size 0 (fingerprint 1) the kept catalog indices
  are 2, 5, 8, 11; the source's raw values are 1, 2, 3, 4 and the claim's are 3, 6, 9, 12.
\<close>

theorem parameters_catalog_index_counterexample:
  "parameters (generateConsistentResult report) \<noteq> Some (spec_parameters (Fingerprint report))
   \<and> map val (the (parameters (generateConsistentResult report)))
       = [''1.0g/dL'', ''2.0mg/dL'', ''3.0g/dL'', ''4.0millions/cu.mm'']
   \<and> map val (spec_parameters (Fingerprint report))
       = [''3.0g/dL'', ''6.0mg/dL'', ''9.0g/dL'', ''12.0millions/cu.mm'']"
proof -
  have f: "Fingerprint report = 1"
    by (simp add: Fingerprint_def report_def)
  have a: "map val (generateParameters 1)
             = [''1.0g/dL'', ''2.0mg/dL'', ''3.0g/dL'', ''4.0millions/cu.mm'']"
    by (simp add: generateParameters_def js_filter_def js_map_def CKD_PARAMETERS_def
          toFixed1_def Let_def digit_def)
  have b: "map val (spec_parameters 1)
             = [''3.0g/dL'', ''6.0mg/dL'', ''9.0g/dL'', ''12.0millions/cu.mm'']"
    by (simp add: spec_parameters_def kept_indices_def CKD_PARAMETERS_def parameter_at_def
          toFixed1_def upt_rec digit_def)
  have c: "parameters (generateConsistentResult report) = Some (generateParameters 1)"
    by (simp add: generateConsistentResult_def report_def)
  have d: "generateParameters 1 \<noteq> spec_parameters 1"
    using a b by auto
  show ?thesis using a b c d f by simp
qed

text \<open>
  Claim C3, amended. The parameters field is absent for an image and present otherwise;
  when present it lists, in catalog order, the catalog items at the indices \<open>i\<close> with
  \<open>(f + i) mod 3 = 0\<close>, and the kept item at position \<open>j\<close> of that filtered list (counting
  from 0) has raw value \<open>(f * (j + 1)) mod 100\<close> with one decimal digit; its status comes
  from \<open>(f + length name) mod 3\<close>: 0 high, 1 low, otherwise normal.
\<close>

theorem parameters_present_and_positions:
  "parameters (generateConsistentResult file) =
     (if startsWith (type file) ''image/'' then None
      else Some (map (\<lambda>(j, i). parameter_at (Fingerprint file) j (CKD_PARAMETERS ! i))
                   (enumerate 0 (kept_indices 3 (Fingerprint file) (length CKD_PARAMETERS)))))"
  by (simp add: generateConsistentResult_def Fingerprint_def generateParameters_positions Let_def)

section \<open>Recommendations\<close>

lemma length_spec_catalog: "length (spec_catalog f) = 5"
  by (simp add: spec_catalog_def Let_def highRiskRecommendations_def
        mediumRiskRecommendations_def lowRiskRecommendations_def)

lemma spec_catalog_five: "\<exists>a b c d e. spec_catalog f = [a, b, c, d, e]"
  by (simp add: spec_catalog_def Let_def highRiskRecommendations_def
        mediumRiskRecommendations_def lowRiskRecommendations_def)

lemma getRecommendations_catalog:
  "getRecommendations f =
     slice0 3 (js_filter (\<lambda>_ index. (f + index) mod 2 = 0) (spec_catalog f))"
  by (simp add: getRecommendations_def spec_catalog_def Let_def)

lemma filter_five:
  "js_filter (\<lambda>_ index. (f + index) mod 2 = 0) [a, b, c, d, e] =
     (if f mod 2 = 0 then [a, c, e] else [b, d])"
  using mod2_cases [of f]
  by (elim disjE) (simp_all add: js_filter_def mod2_shift [of f])

lemma kept_five: "kept_indices 2 f 5 = (if f mod 2 = 0 then [0, 2, 4] else [1, 3])"
  using mod2_cases [of f]
  by (elim disjE) (simp_all add: kept_indices_def mod2_shift [of f] upt_rec)

lemma subseq_alternate:
  "subseq [a, c, e] [a, b, c, d, e]" "subseq [b, d] [a, b, c, d, e]"
  by (blast intro: list_emb.intros)+

text \<open>
  Claim C8. The recommendations are the first three survivors, in catalog order, of the
  tier catalog chosen by \<open>p = (f mod 100) / 100\<close> (high if \<open>p > 0.7\<close>, medium if \<open>p > 0.3\<close>,
  else low) under the filter that keeps index \<open>i\<close> iff \<open>(f + i) mod 2 = 0\<close>; the list is a
  subsequence of the chosen catalog and has at most three entries.
\<close>

theorem recommendations_tier_filter_truncate:
  "getRecommendations f = spec_recommendations f
   \<and> subseq (getRecommendations f) (spec_catalog f)
   \<and> length (getRecommendations f) \<le> 3"
proof -
  obtain a b c d e where cat: "spec_catalog f = [a, b, c, d, e]"
    using spec_catalog_five by blast
  have g: "getRecommendations f = (if f mod 2 = 0 then [a, c, e] else [b, d])"
    by (simp add: getRecommendations_catalog cat filter_five slice0_def)
  have s: "spec_recommendations f = (if f mod 2 = 0 then [a, c, e] else [b, d])"
    unfolding spec_recommendations_def length_spec_catalog kept_five by (simp add: cat)
  have q: "subseq (getRecommendations f) (spec_catalog f)"
    unfolding g cat
    by (cases "f mod 2 = 0") (simp_all only: if_True if_False refl subseq_alternate)
  have l: "length (getRecommendations f) \<le> 3"
    by (simp add: g)
  from g s q l show ?thesis by simp
qed

section \<open>Target accuracy\<close>

lemma foldl_charCodeSum:
  "foldl (\<lambda>acc char. acc + unat char) a fileName = a + charCodeSum fileName"
  by (induction fileName arbitrary: a) (simp_all add: charCodeSum_def)

text \<open>
  Claim C9. For every file name and base accuracy, the target accuracy is
  \<open>clamp (base + variation) 0.85 0.99\<close> with
  \<open>variation = ((charCodeSum name mod 100) / 100) * 0.1 - 0.05\<close>, and lies in \<open>[0.85, 0.99]\<close>.
\<close>

theorem target_accuracy_clamped:
  "getAlgorithmAccuracy fileName base = spec_targetAccuracy fileName base
   \<and> 85 / 100 \<le> getAlgorithmAccuracy fileName base
   \<and> getAlgorithmAccuracy fileName base \<le> 99 / 100"
  by (simp add: getAlgorithmAccuracy_def spec_targetAccuracy_def clamp_def foldl_charCodeSum
        Let_def min_def max_def)

section \<open>Sizes of the filtered lists\<close>

lemma length_getOtherIssues: "length (getOtherIssues f) = (if f mod 3 = 1 then 1 else 2)"
  using mod3_cases [of f]
  by (elim disjE) (simp_all add: getOtherIssues_def js_filter_def mod3_shift [of f])

lemma length_generateParameters: "length (generateParameters f) = 4"
  using mod3_cases [of f]
  by (elim disjE)
    (simp_all add: generateParameters_def js_filter_def js_map_def mod3_shift [of f]
       CKD_PARAMETERS_def)

lemma length_dietary:
  "length (slice0 5 (js_filter (\<lambda>_ index. (f + index) mod 3 = 0) DIETARY_RECOMMENDATIONS))
     = (if f mod 3 = 0 then 4 else 3)"
  using mod3_cases [of f]
  by (elim disjE)
    (simp_all add: js_filter_def slice0_def mod3_shift [of f] DIETARY_RECOMMENDATIONS_def)

lemma length_lifestyle:
  "length (slice0 5 (js_filter (\<lambda>_ index. (f + index) mod 3 = 0) LIFESTYLE_RECOMMENDATIONS))
     = (if f mod 3 = 0 then 4 else 3)"
  using mod3_cases [of f]
  by (elim disjE)
    (simp_all add: js_filter_def slice0_def mod3_shift [of f] LIFESTYLE_RECOMMENDATIONS_def)

text \<open>
  Claim C10. The sizes of the lists filtered modulo 3 depend only on the fingerprint's
  residue: otherIssues has 1 entry when \<open>f mod 3 = 1\<close> and 2 otherwise; the parameter list
  has 4 entries whenever it is present; the dietary and the lifestyle list each have 4
  entries when \<open>f mod 3 = 0\<close> and 3 otherwise, so the cap of 5 is never reached.
\<close>

theorem filtered_list_sizes:
  "length (otherIssues (generateConsistentResult file))
     = (if Fingerprint file mod 3 = 1 then 1 else 2)
   \<and> (case parameters (generateConsistentResult file) of
         None \<Rightarrow> startsWith (type file) ''image/''
       | Some ps \<Rightarrow> length ps = 4)
   \<and> length (generateParameters (Fingerprint file)) = 4
   \<and> length (dietaryRecommendations (generateConsistentResult file))
       = (if Fingerprint file mod 3 = 0 then 4 else 3)
   \<and> length (lifestyleRecommendations (generateConsistentResult file))
       = (if Fingerprint file mod 3 = 0 then 4 else 3)"
  by (simp add: generateConsistentResult_def Let_def Fingerprint_def length_getOtherIssues
        length_generateParameters length_dietary length_lifestyle)

section \<open>The roster, submission and timer lists\<close>

lemma roster_length: "length ANALYSIS_ALGORITHMS = 5"
  by (simp add: ANALYSIS_ALGORITHMS_def)

lemma roster_names_distinct: "distinct (map Algorithm.name ANALYSIS_ALGORITHMS)"
  by (simp add: ANALYSIS_ALGORITHMS_def)

lemma maxDuration_value: "maxDuration = 8000"
  by (simp add: maxDuration_def ANALYSIS_ALGORITHMS_def)

lemma roster_nth:
  "ANALYSIS_ALGORITHMS ! 0 = \<lparr>Algorithm.name = ''Deep Neural Network Analysis'', duration = 8000, baseAccuracy = 97 / 100\<rparr>"
  "ANALYSIS_ALGORITHMS ! 1 = \<lparr>Algorithm.name = ''Random Forest Classification'', duration = 5000, baseAccuracy = 93 / 100\<rparr>"
  "ANALYSIS_ALGORITHMS ! 2 = \<lparr>Algorithm.name = ''Support Vector Machine'', duration = 6000, baseAccuracy = 91 / 100\<rparr>"
  "ANALYSIS_ALGORITHMS ! 3 = \<lparr>Algorithm.name = ''Ensemble Learning Model'', duration = 7000, baseAccuracy = 95 / 100\<rparr>"
  "ANALYSIS_ALGORITHMS ! 4 = \<lparr>Algorithm.name = ''Feature Extraction Pipeline'', duration = 4000, baseAccuracy = 89 / 100\<rparr>"
  by (simp_all add: ANALYSIS_ALGORITHMS_def)

lemma lt5_cases: "i < 5 \<Longrightarrow> i = 0 \<or> i = 1 \<or> i = 2 \<or> i = 3 \<or> i = (4::nat)"
  by arith

lemma roster_duration:
  assumes "i < 5"
  shows "0 < duration (ANALYSIS_ALGORITHMS ! i)" "50 dvd duration (ANALYSIS_ALGORITHMS ! i)"
    "duration (ANALYSIS_ALGORITHMS ! i) \<le> 8000"
  using lt5_cases [OF assms] by (auto simp: ANALYSIS_ALGORITHMS_def)

lemma roster_name_inj:
  "i < 5 \<Longrightarrow> j < 5 \<Longrightarrow>
   Algorithm.name (ANALYSIS_ALGORITHMS ! i) = Algorithm.name (ANALYSIS_ALGORITHMS ! j) \<Longrightarrow> i = j"
  using roster_names_distinct roster_length
  by (metis distinct_conv_nth length_map nth_map)

lemma allAlgorithms_nth: "i < 5 \<Longrightarrow> allAlgorithms v (Algorithm.name (ANALYSIS_ALGORITHMS ! i)) = Some v"
  using lt5_cases [of i] by (auto simp: allAlgorithms_def ANALYSIS_ALGORITHMS_def)

lemma commit_same:
  "overallDeps s = Some (isAnalyzing s, processingImage s) \<Longrightarrow>
   rosterDeps s = Some (isAnalyzing s, currentFileName s) \<Longrightarrow> commit s = s"
  by (cases s) (simp add: commit_def Let_def)

lemma idle_mounted: "idle mounted"
  by (simp add: idle_def mounted_def initial_def commit_def Let_def overallEffect_def rosterEffect_def)

lemma submit_timers:
  assumes "idle s0" "File.name f \<noteq> []"
  shows "timers (submit f s0) =
     [\<lparr>tid = nextTimer s0, due = clock s0 + 9000, period = None, act = Publish (generateConsistentResult f)\<rparr>,
      \<lparr>tid = nextTimer s0 + 1, due = clock s0 + 50, period = Some 50, act = OverallTick (overallWindow f)\<rparr>,
      \<lparr>tid = nextTimer s0 + 2, due = clock s0 + 2000, period = Some 2000, act = StepTick\<rparr>,
      \<lparr>tid = nextTimer s0 + 3, due = clock s0 + overallWindow f, period = None, act = OverallDone\<rparr>,
      \<lparr>tid = nextTimer s0 + 4, due = clock s0 + 50, period = Some 50,
        act = AlgTick (Algorithm.name (ANALYSIS_ALGORITHMS ! 0)) (incrementOf (ANALYSIS_ALGORITHMS ! 0))
                (targetOf (File.name f) (ANALYSIS_ALGORITHMS ! 0)) (accuracyIncrementOf (File.name f) (ANALYSIS_ALGORITHMS ! 0))\<rparr>,
      \<lparr>tid = nextTimer s0 + 5, due = clock s0 + 50, period = Some 50,
        act = AlgTick (Algorithm.name (ANALYSIS_ALGORITHMS ! 1)) (incrementOf (ANALYSIS_ALGORITHMS ! 1))
                (targetOf (File.name f) (ANALYSIS_ALGORITHMS ! 1)) (accuracyIncrementOf (File.name f) (ANALYSIS_ALGORITHMS ! 1))\<rparr>,
      \<lparr>tid = nextTimer s0 + 6, due = clock s0 + 50, period = Some 50,
        act = AlgTick (Algorithm.name (ANALYSIS_ALGORITHMS ! 2)) (incrementOf (ANALYSIS_ALGORITHMS ! 2))
                (targetOf (File.name f) (ANALYSIS_ALGORITHMS ! 2)) (accuracyIncrementOf (File.name f) (ANALYSIS_ALGORITHMS ! 2))\<rparr>,
      \<lparr>tid = nextTimer s0 + 7, due = clock s0 + 50, period = Some 50,
        act = AlgTick (Algorithm.name (ANALYSIS_ALGORITHMS ! 3)) (incrementOf (ANALYSIS_ALGORITHMS ! 3))
                (targetOf (File.name f) (ANALYSIS_ALGORITHMS ! 3)) (accuracyIncrementOf (File.name f) (ANALYSIS_ALGORITHMS ! 3))\<rparr>,
      \<lparr>tid = nextTimer s0 + 8, due = clock s0 + 50, period = Some 50,
        act = AlgTick (Algorithm.name (ANALYSIS_ALGORITHMS ! 4)) (incrementOf (ANALYSIS_ALGORITHMS ! 4))
                (targetOf (File.name f) (ANALYSIS_ALGORITHMS ! 4)) (accuracyIncrementOf (File.name f) (ANALYSIS_ALGORITHMS ! 4))\<rparr>,
      \<lparr>tid = nextTimer s0 + 9, due = clock s0 + 9000, period = None, act = RosterDone\<rparr>]"
  using assms
  by (simp add: submit_def analyzeFile_def commit_def Let_def idle_def setTimeout_def setInterval_def
        overallEffect_def rosterEffect_def startAlgorithm_def maxDuration_value overallWindow_def cancel_def
        incrementOf_def targetOf_def accuracyIncrementOf_def ANALYSIS_ALGORITHMS_def)

lemma submit_fields:
  assumes "idle s0" "File.name f \<noteq> []"
  shows "isAnalyzing (submit f s0)" "currentFileName (submit f s0) = File.name f"
    "overallDeps (submit f s0) = Some (True, processingImage (submit f s0))"
    "rosterDeps (submit f s0) = Some (True, File.name f)"
    "overallCleanup (submit f s0) = [nextTimer s0 + 1, nextTimer s0 + 2, nextTimer s0 + 3]"
    "clock (submit f s0) = clock s0" "result (submit f s0) = None"
    "completedAlgorithms (submit f s0) = []"
    "algorithmProgress (submit f s0) = allAlgorithms 0"
    "algorithmAccuracy (submit f s0) = allAlgorithms (76 / 100)"
  using assms
  by (simp_all add: submit_def analyzeFile_def commit_def Let_def idle_def setTimeout_def setInterval_def
        overallEffect_def rosterEffect_def startAlgorithm_def ANALYSIS_ALGORITHMS_def)

lemma earliest_None: "earliest ts = None \<longleftrightarrow> ts = []"
  by (induction ts) (auto split: option.splits)

lemma earliest_Some:
  "earliest ts = Some t \<Longrightarrow> t \<in> set ts \<and> (\<forall>u \<in> set ts. due t \<le> due u)"
  by (induction ts arbitrary: t) (auto split: option.splits if_splits simp: earliest_None)

lemma earliest_first:
  "sorted_wrt (<) (map tid ts) \<Longrightarrow> earliest ts = Some t \<Longrightarrow> u \<in> set ts \<Longrightarrow>
   due u = due t \<Longrightarrow> tid t \<le> tid u"
proof (induction ts arbitrary: t)
  case Nil
  then show ?case by simp
next
  case (Cons x xs)
  show ?case
  proof (cases "earliest xs")
    case None
    with Cons.prems show ?thesis by (auto simp: earliest_None)
  next
    case (Some v)
    have v: "v \<in> set xs" "\<forall>w \<in> set xs. due v \<le> due w"
      using earliest_Some [OF Some] by auto
    show ?thesis
    proof (cases "due x \<le> due v")
      case True
      with Some Cons.prems show ?thesis by (auto simp: less_imp_le)
    next
      case False
      with Some Cons.prems have t: "t = v" by simp
      from Cons.prems(3) consider "u = x" | "u \<in> set xs" by auto
      then show ?thesis
      proof cases
        case 1
        with False t Cons.prems(4) show ?thesis by simp
      next
        case 2
        from Cons.prems(1) have "sorted_wrt (<) (map tid xs)" by simp
        from Cons.IH [OF this Some 2] Cons.prems(4) t show ?thesis by simp
      qed
    qed
  qed
qed

lemma tid_inj:
  "distinct (map tid ts) \<Longrightarrow> t \<in> set ts \<Longrightarrow> u \<in> set ts \<Longrightarrow> tid u = tid t \<Longrightarrow> u = t"
  by (meson distinct_map inj_onD)

lemma map_tid_reschedule: "map tid (reschedule (tid t) p ts) = map tid ts"
  by (induction ts) (simp_all add: reschedule_def)

lemma set_reschedule:
  assumes "distinct (map tid ts)" "t \<in> set ts"
  shows "set (reschedule (tid t) p ts) = insert (t\<lparr>due := due t + p\<rparr>) (set ts - {t})"
proof -
  have "\<And>u. u \<in> set ts \<Longrightarrow> (tid u = tid t) = (u = t)"
    using tid_inj [OF assms] by auto
  then have "reschedule (tid t) p ts = map (\<lambda>u. if u = t then t\<lparr>due := due t + p\<rparr> else u) ts"
    unfolding reschedule_def by (intro map_cong) auto
  with assms(2) show ?thesis by auto
qed

lemma set_cancel:
  assumes "distinct (map tid ts)" "t \<in> set ts"
  shows "set (cancel (tid t) ts) = set ts - {t}"
  using tid_inj [OF assms] by (auto simp: cancel_def)

lemma cancel_reschedule:
  "cancel (tid t) (reschedule (tid t) p ts) = cancel (tid t) ts"
  by (induction ts) (simp_all add: reschedule_def cancel_def)

lemma sorted_cancel: "sorted_wrt (<) (map tid ts) \<Longrightarrow> sorted_wrt (<) (map tid (cancel (tid t) ts))"
  unfolding cancel_def by (simp add: sorted_wrt_map sorted_wrt_filter)

lemma sorted_tid_distinct: "sorted_wrt (<) (map tid ts) \<Longrightarrow> distinct (map tid ts)"
  by (simp add: strict_sorted_iff)

lemma load_cancel_le: "load H (cancel (tid t) ts) \<le> load H ts"
  unfolding load_def cancel_def by (induction ts) auto

lemma load_cancel:
  "distinct (map tid ts) \<Longrightarrow> t \<in> set ts \<Longrightarrow> load H (cancel (tid t) ts) + weight H t = load H ts"
proof (induction ts)
  case Nil
  then show ?case by simp
next
  case (Cons x xs)
  show ?case
  proof (cases "x = t")
    case True
    with Cons.prems have "\<forall>u \<in> set xs. tid u \<noteq> tid t" by (auto simp: image_iff)
    then have "cancel (tid t) xs = xs" by (simp add: cancel_def)
    with True show ?thesis by (simp add: load_def cancel_def)
  next
    case False
    with Cons.prems have "t \<in> set xs" "tid x \<noteq> tid t" "distinct (map tid xs)"
      by (auto simp: image_iff)
    with Cons.IH show ?thesis by (simp add: load_def cancel_def)
  qed
qed

lemma load_reschedule:
  "distinct (map tid ts) \<Longrightarrow> t \<in> set ts \<Longrightarrow>
   load H (reschedule (tid t) p ts) + weight H t = load H ts + weight H (t\<lparr>due := due t + p\<rparr>)"
proof (induction ts)
  case Nil
  then show ?case by simp
next
  case (Cons x xs)
  show ?case
  proof (cases "x = t")
    case True
    with Cons.prems have "\<forall>u \<in> set xs. tid u \<noteq> tid t" by (auto simp: image_iff)
    then have "reschedule (tid t) p xs = xs" unfolding reschedule_def by (induction xs) auto
    with True show ?thesis by (simp add: load_def reschedule_def)
  next
    case False
    with Cons.prems have "t \<in> set xs" "tid x \<noteq> tid t" "distinct (map tid xs)"
      by (auto simp: image_iff)
    with Cons.IH show ?thesis by (simp add: load_def reschedule_def)
  qed
qed

lemma weight_positive: "due t \<le> H \<Longrightarrow> 0 < weight H t"
  by (simp add: weight_def split: option.splits)

lemma weight_reschedule:
  assumes "due t \<le> H" "period t = Some p" "0 < p"
  shows "weight H (t\<lparr>due := due t + p\<rparr>) < weight H t"
proof (cases "H < due t + p")
  case True
  with assms show ?thesis by (simp add: weight_def)
next
  case False
  then have "H - due t = (H - (due t + p)) + p" using assms by simp
  then have "(H - due t) div p = (H - (due t + p)) div p + 1"
    using assms(3) by (metis div_add_self2 less_numeral_extra(3))
  with False assms show ?thesis by (simp add: weight_def)
qed

lemma load_reschedule_less:
  assumes "distinct (map tid ts)" "t \<in> set ts" "due t \<le> H" "period t = Some p" "0 < p"
  shows "load H (reschedule (tid t) p ts) < load H ts"
  using load_reschedule [OF assms(1,2), of H p] weight_reschedule [OF assms(3,4,5)] by linarith

lemma load_cancel_less:
  assumes "distinct (map tid ts)" "t \<in> set ts" "due t \<le> H"
  shows "load H (cancel (tid t) ts) < load H ts"
  using load_cancel [OF assms(1,2), of H] weight_positive [OF assms(3)] by linarith

section \<open>The state after submission\<close>

lemma wellTimer_algI:
  "i < 5 \<Longrightarrow> tid t = n0 + 4 + i \<Longrightarrow> period t = Some 50 \<Longrightarrow>
   act t = AlgTick (Algorithm.name (ANALYSIS_ALGORITHMS ! i))
                    (incrementOf (ANALYSIS_ALGORITHMS ! i))
                    (targetOf (File.name f) (ANALYSIS_ALGORITHMS ! i))
                    (accuracyIncrementOf (File.name f) (ANALYSIS_ALGORITHMS ! i)) \<Longrightarrow>
   due t = T0 + 50 * (k + 1) \<Longrightarrow> 50 * (k + 1) \<le> duration (ANALYSIS_ALGORITHMS ! i) \<Longrightarrow>
   wellTimer T0 n0 f t"
  unfolding wellTimer_def by blast

lemma overallWindow_late: "9000 < overallWindow f"
  by (simp add: overallWindow_def)

lemma submit_inSession:
  assumes "idle s0" "File.name f \<noteq> []"
  shows "inSession (clock s0) (nextTimer s0) f (submit f s0)"
proof -
  note tm = submit_timers [OF assms]
  note fl = submit_fields [OF assms]
  have c: "ctl (nextTimer s0) f (submit f s0)"
    by (simp add: ctl_def fl)
  have s: "sorted_wrt (<) (map tid (timers (submit f s0)))"
    by (simp add: tm)
  have w: "\<forall>t \<in> set (timers (submit f s0)). clock (submit f s0) \<le> due t \<and> wellTimer (clock s0) (nextTimer s0) f t"
    unfolding tm fl
    apply (simp add: )
    apply (intro conjI)
             apply (simp_all add: wellTimer_def)[4]
         apply (rule wellTimer_algI [where i = 0 and k = 0]; simp add: roster_nth)
        apply (rule wellTimer_algI [where i = "Suc 0" and k = 0]; simp add: roster_nth [simplified])
       apply (rule wellTimer_algI [where i = 2 and k = 0]; simp add: roster_nth)
      apply (rule wellTimer_algI [where i = 3 and k = 0]; simp add: roster_nth)
     apply (rule wellTimer_algI [where i = 4 and k = 0]; simp add: roster_nth)
    apply (simp add: wellTimer_def)
    done
  have p: "pending (submit f s0) (nextTimer s0 + 9)" "pending (submit f s0) (nextTimer s0 + 3)"
    "pending (submit f s0) (nextTimer s0)"
    by (simp_all add: pending_def tm)
  have pb: "published (clock s0) (nextTimer s0) f (submit f s0)"
    using p(3) by (simp add: published_def fl)
  have ar: "algRunning (clock s0) (nextTimer s0) f (submit f s0)"
    unfolding algRunning_def
  proof (intro allI impI ballI)
    fix i t
    assume i: "i < (5::nat)" and t: "t \<in> set (timers (submit f s0))" and e: "tid t = nextTimer s0 + 4 + i"
    from t e have "due t = clock s0 + 50"
      unfolding tm using i by auto
    then show "algorithmProgress (submit f s0) (Algorithm.name (ANALYSIS_ALGORITHMS ! i))
          = Some (of_nat (ticksOf (clock s0) t) * incrementOf (ANALYSIS_ALGORITHMS ! i))
      \<and> algorithmAccuracy (submit f s0) (Algorithm.name (ANALYSIS_ALGORITHMS ! i))
          = Some (76 / 100 + of_nat (ticksOf (clock s0) t) * accuracyIncrementOf (File.name f) (ANALYSIS_ALGORITHMS ! i))
      \<and> Algorithm.name (ANALYSIS_ALGORITHMS ! i) \<notin> set (completedAlgorithms (submit f s0))
      \<and> due t \<le> clock (submit f s0) + 50"
      using i by (simp add: fl allAlgorithms_nth ticksOf_def)
  qed
  have ad: "algDone (clock s0) (nextTimer s0) f (submit f s0)"
    unfolding algDone_def
  proof (intro allI impI)
    fix i
    assume i: "i < (5::nat)" and np: "\<not> pending (submit f s0) (nextTimer s0 + 4 + i)"
    have "pending (submit f s0) (nextTimer s0 + 4 + i)"
      using lt5_cases [OF i] by (auto simp: pending_def tm)
    with np show "algorithmProgress (submit f s0) (Algorithm.name (ANALYSIS_ALGORITHMS ! i)) = Some 100 \<and>
         algorithmAccuracy (submit f s0) (Algorithm.name (ANALYSIS_ALGORITHMS ! i)) =
         Some (targetOf (File.name f) (ANALYSIS_ALGORITHMS ! i)) \<and>
         Algorithm.name (ANALYSIS_ALGORITHMS ! i) \<in> set (completedAlgorithms (submit f s0)) \<and>
         clock s0 + duration (ANALYSIS_ALGORITHMS ! i) \<le> clock (submit f s0)"
      by simp
  qed
  show ?thesis
    unfolding inSession_def using c s w p(1,2) pb ar ad by (simp add: fl)
qed

section \<open>Firing the earliest timer\<close>

lemma fired_cancel:
  assumes srt: "sorted_wrt (<) (map tid ts)" and t: "t \<in> set ts"
    and w: "\<forall>u \<in> set ts. due t \<le> due u \<and> W u"
  shows "sorted_wrt (<) (map tid (cancel (tid t) ts))"
    and "\<forall>u \<in> set (cancel (tid t) ts). due t \<le> due u \<and> W u"
    and "\<And>x. (\<exists>u \<in> set (cancel (tid t) ts). tid u = x) \<longleftrightarrow> x \<noteq> tid t \<and> (\<exists>u \<in> set ts. tid u = x)"
    and "set (cancel (tid t) ts) \<subseteq> set ts"
    and "due t \<le> H \<Longrightarrow> load H (cancel (tid t) ts) < load H ts"
proof -
  have d: "distinct (map tid ts)" using srt by (rule sorted_tid_distinct)
  show "sorted_wrt (<) (map tid (cancel (tid t) ts))" using srt by (rule sorted_cancel)
  show "\<forall>u \<in> set (cancel (tid t) ts). due t \<le> due u \<and> W u"
    using w by (simp add: cancel_def)
  show "\<And>x. (\<exists>u \<in> set (cancel (tid t) ts). tid u = x) \<longleftrightarrow> x \<noteq> tid t \<and> (\<exists>u \<in> set ts. tid u = x)"
    by (auto simp: cancel_def)
  show "set (cancel (tid t) ts) \<subseteq> set ts" by (auto simp: cancel_def)
  show "due t \<le> H \<Longrightarrow> load H (cancel (tid t) ts) < load H ts"
    using load_cancel_less [OF d t] by simp
qed

lemma fired_reschedule:
  assumes srt: "sorted_wrt (<) (map tid ts)" and t: "t \<in> set ts"
    and w: "\<forall>u \<in> set ts. due t \<le> due u \<and> W u"
    and w': "W (t\<lparr>due := due t + p\<rparr>)" and p: "period t = Some p" "0 < p"
  shows "sorted_wrt (<) (map tid (reschedule (tid t) p ts))"
    and "\<forall>u \<in> set (reschedule (tid t) p ts). due t \<le> due u \<and> W u"
    and "\<And>x. (\<exists>u \<in> set (reschedule (tid t) p ts). tid u = x) \<longleftrightarrow> (\<exists>u \<in> set ts. tid u = x)"
    and "\<forall>u \<in> set (reschedule (tid t) p ts). tid u \<noteq> tid t \<longrightarrow> u \<in> set ts"
    and "\<forall>u \<in> set (reschedule (tid t) p ts). tid u = tid t \<longrightarrow> u = t\<lparr>due := due t + p\<rparr>"
    and "due t \<le> H \<Longrightarrow> load H (reschedule (tid t) p ts) < load H ts"
proof -
  have d: "distinct (map tid ts)" using srt by (rule sorted_tid_distinct)
  note st = set_reschedule [OF d t, of p]
  show "sorted_wrt (<) (map tid (reschedule (tid t) p ts))"
    using srt by (simp add: map_tid_reschedule)
  show "\<forall>u \<in> set (reschedule (tid t) p ts). due t \<le> due u \<and> W u"
    unfolding st using w w' by auto
  have "set (map tid (reschedule (tid t) p ts)) = set (map tid ts)"
    by (simp only: map_tid_reschedule)
  then show "\<And>x. (\<exists>u \<in> set (reschedule (tid t) p ts). tid u = x) \<longleftrightarrow> (\<exists>u \<in> set ts. tid u = x)"
    by (metis (no_types, lifting) image_iff list.set_map)
  show "\<forall>u \<in> set (reschedule (tid t) p ts). tid u \<noteq> tid t \<longrightarrow> u \<in> set ts"
    unfolding st by auto
  show "\<forall>u \<in> set (reschedule (tid t) p ts). tid u = tid t \<longrightarrow> u = t\<lparr>due := due t + p\<rparr>"
    unfolding st using tid_inj [OF d t] by auto
  show "due t \<le> H \<Longrightarrow> load H (reschedule (tid t) p ts) < load H ts"
    using load_reschedule_less [OF d t _ p] by simp
qed

lemma afterFire_cancel:
  assumes "sorted_wrt (<) (map tid ts)" "t \<in> set ts" "\<forall>u \<in> set ts. due t \<le> due u \<and> W u"
  shows "afterFire t W ts (cancel (tid t) ts)"
  unfolding afterFire_def
  using fired_cancel(1,2,4) [OF assms] fired_cancel(3) [OF assms] by blast

lemma afterFire_reschedule:
  assumes "sorted_wrt (<) (map tid ts)" "t \<in> set ts" "\<forall>u \<in> set ts. due t \<le> due u \<and> W u"
    "W (t\<lparr>due := due t + p\<rparr>)" "period t = Some p" "0 < p"
  shows "afterFire t W ts (reschedule (tid t) p ts)"
  unfolding afterFire_def
  using fired_reschedule(1,2,4) [OF assms] fired_reschedule(3) [OF assms] by blast

section \<open>Frames\<close>

lemma pending_after:
  "afterFire t W (timers s) (timers s') \<Longrightarrow> x \<noteq> tid t \<Longrightarrow> pending s' x = pending s x"
  by (simp add: afterFire_def pending_def)

lemma inSession_timer:
  assumes "inSession T0 n0 f s" "t \<in> set (timers s)"
  shows "clock s \<le> due t" "wellTimer T0 n0 f t"
  using assms by (auto simp: inSession_def)

lemma roster_timer:
  assumes "inSession T0 n0 f s"
  obtains r where "r \<in> set (timers s)" "tid r = n0 + 9" "due r = T0 + 9000"
proof -
  from assms obtain r where r: "r \<in> set (timers s)" "tid r = n0 + 9"
    by (auto simp: inSession_def pending_def)
  from inSession_timer(2) [OF assms r(1)] r(2) have "due r = T0 + 9000"
    by (auto simp: wellTimer_def)
  with r that show thesis by blast
qed

lemma algRunning_frame:
  assumes ar: "algRunning T0 n0 f s"
    and af: "afterFire t W (timers s) (timers s')"
    and nt: "\<forall>i<5. tid t \<noteq> n0 + 4 + i"
    and same: "algorithmProgress s' = algorithmProgress s" "algorithmAccuracy s' = algorithmAccuracy s"
      "completedAlgorithms s' = completedAlgorithms s"
    and clk: "clock s \<le> clock s'"
  shows "algRunning T0 n0 f s'"
  unfolding algRunning_def
proof (intro allI impI ballI)
  fix i u
  assume i: "i < (5::nat)" and u: "u \<in> set (timers s')" and e: "tid u = n0 + 4 + i"
  from nt i e have "tid u \<noteq> tid t" by auto
  with af u have "u \<in> set (timers s)" by (simp add: afterFire_def)
  with ar i e have
    "algorithmProgress s (Algorithm.name (ANALYSIS_ALGORITHMS ! i))
          = Some (of_nat (ticksOf T0 u) * incrementOf (ANALYSIS_ALGORITHMS ! i))
      \<and> algorithmAccuracy s (Algorithm.name (ANALYSIS_ALGORITHMS ! i))
          = Some (76 / 100 + of_nat (ticksOf T0 u) * accuracyIncrementOf (File.name f) (ANALYSIS_ALGORITHMS ! i))
      \<and> Algorithm.name (ANALYSIS_ALGORITHMS ! i) \<notin> set (completedAlgorithms s)
      \<and> due u \<le> clock s + 50"
    unfolding algRunning_def by blast
  with clk show
    "algorithmProgress s' (Algorithm.name (ANALYSIS_ALGORITHMS ! i))
          = Some (of_nat (ticksOf T0 u) * incrementOf (ANALYSIS_ALGORITHMS ! i))
      \<and> algorithmAccuracy s' (Algorithm.name (ANALYSIS_ALGORITHMS ! i))
          = Some (76 / 100 + of_nat (ticksOf T0 u) * accuracyIncrementOf (File.name f) (ANALYSIS_ALGORITHMS ! i))
      \<and> Algorithm.name (ANALYSIS_ALGORITHMS ! i) \<notin> set (completedAlgorithms s')
      \<and> due u \<le> clock s' + 50"
    by (simp add: same)
qed

lemma algDone_frame:
  assumes ad: "algDone T0 n0 f s"
    and af: "afterFire t W (timers s) (timers s')"
    and nt: "\<forall>i<5. tid t \<noteq> n0 + 4 + i"
    and same: "algorithmProgress s' = algorithmProgress s" "algorithmAccuracy s' = algorithmAccuracy s"
      "completedAlgorithms s' = completedAlgorithms s"
    and clk: "clock s \<le> clock s'"
  shows "algDone T0 n0 f s'"
  unfolding algDone_def
proof (intro allI impI)
  fix i
  assume i: "i < (5::nat)" and np: "\<not> pending s' (n0 + 4 + i)"
  from nt i have "n0 + 4 + i \<noteq> tid t" by auto
  from pending_after [OF af this] np have "\<not> pending s (n0 + 4 + i)" by simp
  with ad i have
    "algorithmProgress s (Algorithm.name (ANALYSIS_ALGORITHMS ! i)) = Some 100
      \<and> algorithmAccuracy s (Algorithm.name (ANALYSIS_ALGORITHMS ! i))
          = Some (targetOf (File.name f) (ANALYSIS_ALGORITHMS ! i))
      \<and> Algorithm.name (ANALYSIS_ALGORITHMS ! i) \<in> set (completedAlgorithms s)
      \<and> T0 + duration (ANALYSIS_ALGORITHMS ! i) \<le> clock s"
    unfolding algDone_def by blast
  with clk show
    "algorithmProgress s' (Algorithm.name (ANALYSIS_ALGORITHMS ! i)) = Some 100
      \<and> algorithmAccuracy s' (Algorithm.name (ANALYSIS_ALGORITHMS ! i))
          = Some (targetOf (File.name f) (ANALYSIS_ALGORITHMS ! i))
      \<and> Algorithm.name (ANALYSIS_ALGORITHMS ! i) \<in> set (completedAlgorithms s')
      \<and> T0 + duration (ANALYSIS_ALGORITHMS ! i) \<le> clock s'"
    by (simp add: same)
qed

lemma tickRel_same:
  assumes "algorithmProgress s' = algorithmProgress s" "algorithmAccuracy s' = algorithmAccuracy s"
      "completedAlgorithms s' = completedAlgorithms s"
  shows "tickRel f s s'"
  by (simp add: tickRel_def assms)

text \<open>A timer other than an algorithm's or the roster's fires, and leaves the run states alone.\<close>

lemma passive_fire:
  assumes inv: "inSession T0 n0 f s"
    and t: "t \<in> set (timers s)" and tmin: "\<forall>u \<in> set (timers s). due t \<le> due u"
    and kind: "tid t = n0 \<or> tid t = n0 + 1 \<or> tid t = n0 + 2"
    and af: "afterFire t (wellTimer T0 n0 f) (timers s) (timers s')"
    and gone: "tid t = n0 \<longrightarrow> \<not> pending s' n0"
    and c': "ctl n0 f s'" and clk: "clock s' = due t"
    and res: "result s' = (if tid t = n0 then Some (generateConsistentResult f) else result s)"
    and same: "algorithmProgress s' = algorithmProgress s" "algorithmAccuracy s' = algorithmAccuracy s"
      "completedAlgorithms s' = completedAlgorithms s"
  shows "inSession T0 n0 f s' \<and> tickRel f s s'"
proof -
  obtain r where r: "r \<in> set (timers s)" "tid r = n0 + 9" "due r = T0 + 9000"
    using roster_timer [OF inv] .
  have dueH: "due t \<le> T0 + 9000" using tmin r by auto
  have ct: "clock s \<le> due t" using inSession_timer(1) [OF inv t] .
  have nt: "\<forall>i<5. tid t \<noteq> n0 + 4 + i" using kind by auto
  have p9: "pending s' (n0 + 9)" "pending s' (n0 + 3)"
    using pending_after [OF af, of "n0 + 9"] pending_after [OF af, of "n0 + 3"] kind inv
    by (auto simp: inSession_def)
  have wt: "wellTimer T0 n0 f t" using inSession_timer(2) [OF inv t] .
  have pub: "published T0 n0 f s'"
  proof (cases "tid t = n0")
    case True
    with wt have "due t = T0 + 9000" by (auto simp: wellTimer_def)
    with True gone res clk show ?thesis by (simp add: published_def)
  next
    case False
    then have "pending s' n0 = pending s n0" using pending_after [OF af, of n0] by simp
    moreover from inv have "published T0 n0 f s" by (simp add: inSession_def)
    ultimately show ?thesis using False res clk ct dueH by (auto simp: published_def)
  qed
  have ar: "algRunning T0 n0 f s'"
    using algRunning_frame [OF _ af nt same] inv ct clk by (simp add: inSession_def)
  have ad: "algDone T0 n0 f s'"
    using algDone_frame [OF _ af nt same] inv ct clk by (simp add: inSession_def)
  have "inSession T0 n0 f s'"
    unfolding inSession_def
    using c' af p9 pub ar ad inv ct clk
    by (simp add: afterFire_def same inSession_def)
  with tickRel_same [OF same] show ?thesis by simp
qed

section \<open>Publishing and the overall-progress timers\<close>

lemma commit_ctl: "ctl n0 f s \<Longrightarrow> commit s = s"
  by (rule commit_same) (simp_all add: ctl_def)

lemma wellTimer_tid:
  assumes "wellTimer T0 n0 f t"
  shows "tid t = n0 \<Longrightarrow> act t = Publish (generateConsistentResult f) \<and> period t = None \<and> due t = T0 + 9000"
    and "tid t = n0 + 1 \<Longrightarrow> (\<exists>tot. act t = OverallTick tot) \<and> period t = Some 50"
    and "tid t = n0 + 2 \<Longrightarrow> act t = StepTick \<and> period t = Some 2000"
    and "tid t = n0 + 3 \<Longrightarrow> act t = OverallDone \<and> period t = None \<and> due t = T0 + overallWindow f"
    and "tid t = n0 + 9 \<Longrightarrow> act t = RosterDone \<and> period t = None \<and> due t = T0 + 9000"
  using assms by (auto simp: wellTimer_def)

lemma wellTimer_alg:
  assumes "wellTimer T0 n0 f t" "i < 5" "tid t = n0 + 4 + i"
  shows "period t = Some 50"
    and "act t = AlgTick (Algorithm.name (ANALYSIS_ALGORITHMS ! i))
                    (incrementOf (ANALYSIS_ALGORITHMS ! i))
                    (targetOf (File.name f) (ANALYSIS_ALGORITHMS ! i))
                    (accuracyIncrementOf (File.name f) (ANALYSIS_ALGORITHMS ! i))"
    and "due t = T0 + 50 * (ticksOf T0 t + 1)"
    and "50 * (ticksOf T0 t + 1) \<le> duration (ANALYSIS_ALGORITHMS ! i)"
  using assms by (auto simp: wellTimer_def ticksOf_def)

lemma wellTimer_kinds:
  assumes "wellTimer T0 n0 f t"
  shows "tid t = n0 \<or> tid t = n0 + 1 \<or> tid t = n0 + 2 \<or> tid t = n0 + 3
         \<or> (\<exists>i<5. tid t = n0 + 4 + i) \<or> tid t = n0 + 9"
  using assms unfolding wellTimer_def by blast

lemma fire_publish:
  assumes inv: "inSession T0 n0 f s"
    and t: "t \<in> set (timers s)" and tmin: "\<forall>u \<in> set (timers s). due t \<le> due u"
    and k: "tid t = n0"
  shows "inSession T0 n0 f (fire t s) \<and> tickRel f s (fire t s)
         \<and> load (T0 + 9000) (timers (fire t s)) < load (T0 + 9000) (timers s)"
proof -
  have wt: "wellTimer T0 n0 f t" using inSession_timer(2) [OF inv t] .
  note a = wellTimer_tid(1) [OF wt k]
  have c: "ctl n0 f s" and srt: "sorted_wrt (<) (map tid (timers s))"
    and w: "\<forall>u \<in> set (timers s). due t \<le> due u \<and> wellTimer T0 n0 f u"
    using inv tmin by (auto simp: inSession_def)
  define s' where "s' = s\<lparr>clock := due t, timers := cancel (tid t) (timers s),
     result := Some (generateConsistentResult f)\<rparr>"
  have c': "ctl n0 f s'" using c by (simp add: ctl_def s'_def)
  have f: "fire t s = s'"
    using a commit_ctl [OF c'] by (simp add: fire_def Let_def s'_def)
  have tm: "timers s' = cancel (tid t) (timers s)" by (simp add: s'_def)
  have af: "afterFire t (wellTimer T0 n0 f) (timers s) (timers s')"
    unfolding tm by (rule afterFire_cancel [OF srt t w])
  have gone: "tid t = n0 \<longrightarrow> \<not> pending s' n0"
    using fired_cancel(3) [OF srt t w, of n0] k by (simp add: pending_def tm)
  have "inSession T0 n0 f s' \<and> tickRel f s s'"
    by (rule passive_fire [OF inv t tmin _ af gone c']) (simp_all add: k s'_def)
  moreover have "load (T0 + 9000) (timers s') < load (T0 + 9000) (timers s)"
    unfolding tm using fired_cancel(5) [OF srt t w] a by simp
  ultimately show ?thesis by (simp add: f)
qed

lemma fire_stepTick:
  assumes inv: "inSession T0 n0 f s"
    and t: "t \<in> set (timers s)" and tmin: "\<forall>u \<in> set (timers s). due t \<le> due u"
    and dueH: "due t \<le> T0 + 9000"
    and k: "tid t = n0 + 2"
  shows "inSession T0 n0 f (fire t s) \<and> tickRel f s (fire t s)
         \<and> load (T0 + 9000) (timers (fire t s)) < load (T0 + 9000) (timers s)"
proof -
  have wt: "wellTimer T0 n0 f t" using inSession_timer(2) [OF inv t] .
  note a = wellTimer_tid(3) [OF wt k]
  have c: "ctl n0 f s" and srt: "sorted_wrt (<) (map tid (timers s))"
    and w: "\<forall>u \<in> set (timers s). due t \<le> due u \<and> wellTimer T0 n0 f u"
    using inv tmin by (auto simp: inSession_def)
  have w': "wellTimer T0 n0 f (t\<lparr>due := due t + 2000\<rparr>)"
    using a k by (simp add: wellTimer_def)
  have p: "period t = Some 2000" "0 < (2000::nat)" using a by simp_all
  define s' where "s' = s\<lparr>clock := due t, timers := reschedule (tid t) 2000 (timers s),
     analysisStep := (analysisStep s + 1) mod 4\<rparr>"
  have c': "ctl n0 f s'" using c by (simp add: ctl_def s'_def)
  have f: "fire t s = s'"
    using a commit_ctl [OF c'] by (simp add: fire_def Let_def s'_def)
  have tm: "timers s' = reschedule (tid t) 2000 (timers s)" by (simp add: s'_def)
  have af: "afterFire t (wellTimer T0 n0 f) (timers s) (timers s')"
    unfolding tm by (rule afterFire_reschedule [OF srt t w w' p])
  have "inSession T0 n0 f s' \<and> tickRel f s s'"
    by (rule passive_fire [OF inv t tmin _ af _ c']) (simp_all add: k s'_def)
  moreover have "load (T0 + 9000) (timers s') < load (T0 + 9000) (timers s)"
    unfolding tm using fired_reschedule(6) [OF srt t w w' p] dueH by simp
  ultimately show ?thesis by (simp add: f)
qed

lemma fire_overallTick:
  assumes inv: "inSession T0 n0 f s"
    and t: "t \<in> set (timers s)" and tmin: "\<forall>u \<in> set (timers s). due t \<le> due u"
    and dueH: "due t \<le> T0 + 9000"
    and k: "tid t = n0 + 1"
  shows "inSession T0 n0 f (fire t s) \<and> tickRel f s (fire t s)
         \<and> load (T0 + 9000) (timers (fire t s)) < load (T0 + 9000) (timers s)"
proof -
  have wt: "wellTimer T0 n0 f t" using inSession_timer(2) [OF inv t] .
  from wellTimer_tid(2) [OF wt k] obtain tot where a: "act t = OverallTick tot" "period t = Some 50"
    by blast
  have c: "ctl n0 f s" and srt: "sorted_wrt (<) (map tid (timers s))"
    and w: "\<forall>u \<in> set (timers s). due t \<le> due u \<and> wellTimer T0 n0 f u"
    using inv tmin by (auto simp: inSession_def)
  have w': "wellTimer T0 n0 f (t\<lparr>due := due t + 50\<rparr>)"
    using a k by (simp add: wellTimer_def)
  have p: "period t = Some 50" "0 < (50::nat)" using a by simp_all
  show ?thesis
  proof (cases "analysisProgress s \<ge> 100")
    case True
    define s' where "s' = s\<lparr>clock := due t, timers := cancel (tid t) (timers s),
       analysisProgress := 100\<rparr>"
    have c': "ctl n0 f s'" using c by (simp add: ctl_def s'_def)
    have f: "fire t s = s'"
      using a True commit_ctl [OF c']
      by (simp add: fire_def Let_def s'_def overallTick_def clearTimer_def cancel_reschedule)
    have tm: "timers s' = cancel (tid t) (timers s)" by (simp add: s'_def)
    have af: "afterFire t (wellTimer T0 n0 f) (timers s) (timers s')"
      unfolding tm by (rule afterFire_cancel [OF srt t w])
    have "inSession T0 n0 f s' \<and> tickRel f s s'"
      by (rule passive_fire [OF inv t tmin _ af _ c']) (simp_all add: k s'_def)
    moreover have "load (T0 + 9000) (timers s') < load (T0 + 9000) (timers s)"
      unfolding tm using fired_cancel(5) [OF srt t w] dueH by simp
    ultimately show ?thesis by (simp add: f)
  next
    case False
    define s' where "s' = s\<lparr>clock := due t, timers := reschedule (tid t) 50 (timers s),
       analysisProgress := analysisProgress s + 100 / (of_nat tot / 50)\<rparr>"
    have c': "ctl n0 f s'" using c by (simp add: ctl_def s'_def)
    have f: "fire t s = s'"
      using a False commit_ctl [OF c']
      by (simp add: fire_def Let_def s'_def overallTick_def)
    have tm: "timers s' = reschedule (tid t) 50 (timers s)" by (simp add: s'_def)
    have af: "afterFire t (wellTimer T0 n0 f) (timers s) (timers s')"
      unfolding tm by (rule afterFire_reschedule [OF srt t w w' p])
    have "inSession T0 n0 f s' \<and> tickRel f s s'"
      by (rule passive_fire [OF inv t tmin _ af _ c']) (simp_all add: k s'_def)
    moreover have "load (T0 + 9000) (timers s') < load (T0 + 9000) (timers s)"
      unfolding tm using fired_reschedule(6) [OF srt t w w' p] dueH by simp
    ultimately show ?thesis by (simp add: f)
  qed
qed

section \<open>One tick of an algorithm\<close>

lemma getAlgorithmAccuracy_bounds:
  "85 / 100 \<le> getAlgorithmAccuracy fileName base" "getAlgorithmAccuracy fileName base \<le> 99 / 100"
  by (simp_all add: getAlgorithmAccuracy_def Let_def min_def max_def)

lemma targetOf_above: "76 / 100 < targetOf fileName a"
  using getAlgorithmAccuracy_bounds(1) [of fileName "baseAccuracy a"]
  by (simp add: targetOf_def)

lemma progress_fraction:
  assumes "0 < d"
  shows "of_nat k * (100 * 50 / of_nat d) + 100 * 50 / of_nat d
           = (100 :: rat) * (of_nat (50 * (k + 1)) / of_nat d)"
  using assms by (simp add: field_simps)

lemma accuracy_fraction:
  assumes "0 < d"
  shows "c + of_nat k * ((g - c) * 50 / of_nat d) + (g - c) * 50 / of_nat d
           = (c :: rat) + (g - c) * (of_nat (50 * (k + 1)) / of_nat d)"
  using assms by (simp add: field_simps)

lemma fraction_le_one:
  assumes "0 < d"
  shows "((of_nat n / of_nat d :: rat) \<le> 1) = (n \<le> d)"
    and "((1 :: rat) \<le> of_nat n / of_nat d) = (d \<le> n)"
    and "((of_nat n / of_nat d :: rat) = 1) = (n = d)"
  using assms by (auto simp: field_simps)

lemma orElse_Some: "orElse (Some x) 0 = x" "x \<noteq> 0 \<Longrightarrow> orElse (Some x) d = x"
  by (simp_all add: orElse_def)

lemma algTick_generic:
  assumes "orElse (algorithmProgress s nm) 0 + inc = P"
    and "min (orElse (algorithmAccuracy s nm) (76 / 100) + ainc) g = A"
  shows "algTick i nm inc g ainc s =
     (if 100 \<le> P
      then s\<lparr>timers := cancel i (timers s),
             completedAlgorithms := completedAlgorithms s @ [nm],
             algorithmProgress := (algorithmProgress s)(nm \<mapsto> 100),
             algorithmAccuracy := (algorithmAccuracy s)(nm \<mapsto> A)\<rparr>
      else s\<lparr>algorithmProgress := (algorithmProgress s)(nm \<mapsto> P),
             algorithmAccuracy := (algorithmAccuracy s)(nm \<mapsto> A)\<rparr>)"
  using assms by (simp add: algTick_def Let_def clearTimer_def)

text \<open>One tick of an algorithm whose run state is where \<open>k\<close> earlier ticks left it.\<close>

lemma algTick_step:
  assumes d: "0 < d" and g: "76 / 100 < g" and le: "50 * (k + 1) \<le> d"
    and p: "algorithmProgress s nm = Some (of_nat k * (100 * 50 / of_nat d))"
    and a: "algorithmAccuracy s nm = Some (76 / 100 + of_nat k * ((g - 76 / 100) * 50 / of_nat d))"
  shows "algTick i nm (100 * 50 / of_nat d) g ((g - 76 / 100) * 50 / of_nat d) s =
     (if 50 * (k + 1) = d
      then s\<lparr>timers := cancel i (timers s),
             completedAlgorithms := completedAlgorithms s @ [nm],
             algorithmProgress := (algorithmProgress s)(nm \<mapsto> 100),
             algorithmAccuracy := (algorithmAccuracy s)(nm \<mapsto> g)\<rparr>
      else s\<lparr>algorithmProgress := (algorithmProgress s)(nm \<mapsto> of_nat (k + 1) * (100 * 50 / of_nat d)),
             algorithmAccuracy := (algorithmAccuracy s)
               (nm \<mapsto> 76 / 100 + of_nat (k + 1) * ((g - 76 / 100) * 50 / of_nat d))\<rparr>)"
proof -
  define x :: rat where "x = of_nat (50 * (k + 1)) / of_nat d"
  have x1: "x \<le> 1" unfolding x_def using le d by (simp only: fraction_le_one)
  have np: "orElse (algorithmProgress s nm) 0 + 100 * 50 / of_nat d = 100 * x"
    unfolding p orElse_Some(1) x_def by (rule progress_fraction [OF d])
  have "(100 \<le> 100 * x) = (1 \<le> x)" by simp
  also have "\<dots> = (d \<le> 50 * (k + 1))"
    unfolding x_def by (rule fraction_le_one(2) [OF d])
  also have "\<dots> = (50 * (k + 1) = d)" using le by auto
  finally have reach: "(100 \<le> 100 * x) = (50 * (k + 1) = d)" .
  have cur: "(0::rat) < 76 / 100 + of_nat k * ((g - 76 / 100) * 50 / of_nat d)"
    using g d by (simp add: add_pos_nonneg)
  have oa: "orElse (algorithmAccuracy s nm) (76 / 100)
              = 76 / 100 + of_nat k * ((g - 76 / 100) * 50 / of_nat d)"
    unfolding a using cur by (simp add: orElse_def)
  have na: "76 / 100 + of_nat k * ((g - 76 / 100) * 50 / of_nat d) + (g - 76 / 100) * 50 / of_nat d
              = 76 / 100 + (g - 76 / 100) * x"
    unfolding x_def by (rule accuracy_fraction [OF d])
  have "(g - 76 / 100) * x \<le> (g - 76 / 100) * 1"
    using g x1 by (intro mult_left_mono) simp_all
  then have mn: "min (76 / 100 + (g - 76 / 100) * x) g = 76 / 100 + (g - 76 / 100) * x"
    by simp
  have full: "50 * (k + 1) = d \<Longrightarrow> 76 / 100 + (g - 76 / 100) * x = g"
    unfolding x_def using d by simp
  have part: "100 * x = of_nat (k + 1) * (100 * 50 / of_nat d)"
    "76 / 100 + (g - 76 / 100) * x = 76 / 100 + of_nat (k + 1) * ((g - 76 / 100) * 50 / of_nat d)"
    unfolding x_def using d by (simp_all add: field_simps)
  have A: "min (orElse (algorithmAccuracy s nm) (76 / 100) + (g - 76 / 100) * 50 / of_nat d) g
             = 76 / 100 + (g - 76 / 100) * x"
    by (simp only: oa na mn)
  note s1 = algTick_generic [OF np A, of i]
  show ?thesis
  proof (cases "50 * (k + 1) = d")
    case True
    then have "100 \<le> 100 * x" by (simp only: reach)
    then show ?thesis
      unfolding s1 by (simp only: if_True True refl full [OF True])
  next
    case False
    then have "\<not> 100 \<le> 100 * x" by (simp only: reach not_False_eq_True)
    then show ?thesis
      unfolding s1 by (simp only: if_False False part [symmetric])
  qed
qed

section \<open>An algorithm interval fires\<close>

lemma algRunningD:
  assumes "algRunning T0 n0 f s" "i < 5" "u \<in> set (timers s)" "tid u = n0 + 4 + i"
  shows "algorithmProgress s (Algorithm.name (ANALYSIS_ALGORITHMS ! i))
          = Some (of_nat (ticksOf T0 u) * incrementOf (ANALYSIS_ALGORITHMS ! i))"
    and "algorithmAccuracy s (Algorithm.name (ANALYSIS_ALGORITHMS ! i))
          = Some (76 / 100 + of_nat (ticksOf T0 u) * accuracyIncrementOf (File.name f) (ANALYSIS_ALGORITHMS ! i))"
    and "Algorithm.name (ANALYSIS_ALGORITHMS ! i) \<notin> set (completedAlgorithms s)"
    and "due u \<le> clock s + 50"
  using assms unfolding algRunning_def by blast+

lemma algDoneD:
  assumes "algDone T0 n0 f s" "i < 5" "\<not> pending s (n0 + 4 + i)"
  shows "algorithmProgress s (Algorithm.name (ANALYSIS_ALGORITHMS ! i)) = Some 100"
    and "algorithmAccuracy s (Algorithm.name (ANALYSIS_ALGORITHMS ! i))
          = Some (targetOf (File.name f) (ANALYSIS_ALGORITHMS ! i))"
    and "Algorithm.name (ANALYSIS_ALGORITHMS ! i) \<in> set (completedAlgorithms s)"
    and "T0 + duration (ANALYSIS_ALGORITHMS ! i) \<le> clock s"
  using assms unfolding algDone_def by blast+

lemma published_frame:
  assumes "published T0 n0 f s" "pending s' n0 = pending s n0" "result s' = result s"
    "clock s \<le> clock s'" "clock s' \<le> T0 + 9000"
  shows "published T0 n0 f s'"
  using assms by (auto simp: published_def)

lemma tick_values:
  assumes d: "0 < d" and g: "76 / 100 < (g :: rat)" and le: "50 * (k + 1) \<le> d"
  shows "of_nat (k + 1) * (100 * 50 / of_nat d) \<le> (100 :: rat)"
    and "76 / 100 + of_nat (k + 1) * ((g - 76 / 100) * 50 / of_nat d) \<le> g"
    and "(of_nat (k + 1) * (100 * 50 / of_nat d) = (100 :: rat)) = (50 * (k + 1) = d)"
    and "50 * (k + 1) = d \<Longrightarrow> 76 / 100 + of_nat (k + 1) * ((g - 76 / 100) * 50 / of_nat d) = g"
proof -
  define x :: rat where "x = of_nat (50 * (k + 1)) / of_nat d"
  have x1: "x \<le> 1" unfolding x_def using le d by (simp only: fraction_le_one)
  have e1: "of_nat (k + 1) * (100 * 50 / of_nat d) = 100 * x"
    and e2: "76 / 100 + of_nat (k + 1) * ((g - 76 / 100) * 50 / of_nat d) = 76 / 100 + (g - 76 / 100) * x"
    unfolding x_def using d by (simp_all add: field_simps)
  show "of_nat (k + 1) * (100 * 50 / of_nat d) \<le> (100 :: rat)"
    unfolding e1 using x1 by simp
  have "(g - 76 / 100) * x \<le> (g - 76 / 100) * 1"
    using g x1 by (intro mult_left_mono) simp_all
  then show "76 / 100 + of_nat (k + 1) * ((g - 76 / 100) * 50 / of_nat d) \<le> g"
    unfolding e2 by simp
  have "(100 * x = 100) = (x = 1)" by simp
  also have "\<dots> = (50 * (k + 1) = d)"
    unfolding x_def by (rule fraction_le_one(3) [OF d])
  finally show "(of_nat (k + 1) * (100 * 50 / of_nat d) = (100 :: rat)) = (50 * (k + 1) = d)"
    unfolding e1 .
  show "50 * (k + 1) = d \<Longrightarrow> 76 / 100 + of_nat (k + 1) * ((g - 76 / 100) * 50 / of_nat d) = g"
    unfolding e2 x_def using d by simp
qed

lemma tick_next:
  "of_nat k * (c :: rat) + c = of_nat (k + 1) * c"
  "b + of_nat k * (c :: rat) + c = b + of_nat (k + 1) * c"
  by (simp_all add: algebra_simps)

lemma ticksOf_due: "due t = T0 + 50 * (k + 1) \<Longrightarrow> ticksOf T0 t = k"
  by (simp add: ticksOf_def)

lemma fire_algTick:
  assumes inv: "inSession T0 n0 f s"
    and t: "t \<in> set (timers s)" and tmin: "\<forall>u \<in> set (timers s). due t \<le> due u"
    and i: "i < 5" and k: "tid t = n0 + 4 + i"
  shows "inSession T0 n0 f (fire t s) \<and> tickRel f s (fire t s)
         \<and> load (T0 + 9000) (timers (fire t s)) < load (T0 + 9000) (timers s)"
proof -
  define a where "a = ANALYSIS_ALGORITHMS ! i"
  define n where "n = ticksOf T0 t"
  define d where "d = duration a"
  define g where "g = targetOf (File.name f) a"
  define inc where "inc = (100 * 50 / of_nat d :: rat)"
  define ainc where "ainc = (g - 76 / 100) * 50 / of_nat d"
  have inc: "incrementOf a = inc" by (simp add: incrementOf_def inc_def d_def)
  have ainc: "accuracyIncrementOf (File.name f) a = ainc"
    by (simp add: accuracyIncrementOf_def ainc_def d_def g_def)
  have d0: "0 < d" and dv: "50 dvd d" and d8: "d \<le> 8000"
    using roster_duration [OF i] by (simp_all add: d_def a_def)
  have g0: "76 / 100 < g" unfolding g_def by (rule targetOf_above)
  have wt: "wellTimer T0 n0 f t" using inSession_timer(2) [OF inv t] .
  have per: "period t = Some 50" by (rule wellTimer_alg(1) [OF wt i k])
  have ac: "act t = AlgTick (Algorithm.name a) inc g ainc"
    unfolding inc [symmetric] ainc [symmetric] g_def a_def by (rule wellTimer_alg(2) [OF wt i k])
  have du: "due t = T0 + 50 * (n + 1)"
    unfolding n_def by (rule wellTimer_alg(3) [OF wt i k])
  have le: "50 * (n + 1) \<le> d"
    unfolding n_def d_def a_def by (rule wellTimer_alg(4) [OF wt i k])
  have c: "ctl n0 f s" and srt: "sorted_wrt (<) (map tid (timers s))"
    and w: "\<forall>u \<in> set (timers s). due t \<le> due u \<and> wellTimer T0 n0 f u"
    and ar: "algRunning T0 n0 f s" and ad: "algDone T0 n0 f s"
    and pb: "published T0 n0 f s"
    and dc: "distinct (completedAlgorithms s)"
      "set (completedAlgorithms s) \<subseteq> Algorithm.name ` set ANALYSIS_ALGORITHMS"
    using inv tmin by (auto simp: inSession_def)
  have run: "algorithmProgress s (Algorithm.name a) = Some (of_nat n * inc)"
    "algorithmAccuracy s (Algorithm.name a) = Some (76 / 100 + of_nat n * ainc)"
    "Algorithm.name a \<notin> set (completedAlgorithms s)"
    unfolding inc [symmetric] ainc [symmetric] n_def a_def
    by (rule algRunningD [OF ar i t k])+
  note tv = tick_values [OF d0 g0 le, folded inc_def ainc_def]
  have ct: "clock s \<le> due t" using inSession_timer(1) [OF inv t] .
  have dueH: "due t \<le> T0 + 9000" using du le d8 by simp
  have other: "Algorithm.name (ANALYSIS_ALGORITHMS ! j) \<noteq> Algorithm.name a" if "j < 5" "j \<noteq> i" for j
    using roster_name_inj [OF that(1) i] that(2) by (auto simp: a_def)
  have ain: "a \<in> set ANALYSIS_ALGORITHMS"
    using i by (simp add: a_def roster_length)
  have nk: "tid t \<noteq> n0" "tid t \<noteq> n0 + 9" "tid t \<noteq> n0 + 3" using k i by simp_all
  define s1 where "s1 = s\<lparr>clock := due t, timers := reschedule (tid t) 50 (timers s)\<rparr>"
  have f1: "fire t s = commit (algTick (tid t) (Algorithm.name a) inc g ainc s1)"
    by (simp add: fire_def Let_def per ac s1_def)
  have p1: "algorithmProgress s1 (Algorithm.name a) = Some (of_nat n * (100 * 50 / of_nat d))"
    and a1: "algorithmAccuracy s1 (Algorithm.name a)
               = Some (76 / 100 + of_nat n * ((g - 76 / 100) * 50 / of_nat d))"
    using run(1,2) by (simp_all add: s1_def inc_def ainc_def)
  note tick = algTick_step [OF d0 g0 le p1 a1, of "tid t", folded inc_def ainc_def]
  show ?thesis
  proof (cases "50 * (n + 1) = d")
    case True
    define s' where "s' = s\<lparr>clock := due t, timers := cancel (tid t) (timers s),
        completedAlgorithms := completedAlgorithms s @ [Algorithm.name a],
        algorithmProgress := (algorithmProgress s)(Algorithm.name a \<mapsto> 100),
        algorithmAccuracy := (algorithmAccuracy s)(Algorithm.name a \<mapsto> g)\<rparr>"
    have c': "ctl n0 f s'" using c by (simp add: ctl_def s'_def)
    have "algTick (tid t) (Algorithm.name a) inc g ainc s1 = s'"
      unfolding tick using True by (simp add: s1_def s'_def cancel_reschedule)
    then have f: "fire t s = s'" using commit_ctl [OF c'] by (simp add: f1)
    have tm: "timers s' = cancel (tid t) (timers s)" by (simp add: s'_def)
    have clk: "clock s' = due t" by (simp add: s'_def)
    have af: "afterFire t (wellTimer T0 n0 f) (timers s) (timers s')"
      unfolding tm by (rule afterFire_cancel [OF srt t w])
    have gone: "\<not> pending s' (tid t)"
      using fired_cancel(3) [OF srt t w, of "tid t"] by (simp add: pending_def tm)
    have p9: "pending s' (n0 + 9)" "pending s' (n0 + 3)"
      using pending_after [OF af, of "n0 + 9"] pending_after [OF af, of "n0 + 3"] nk inv
      by (auto simp: inSession_def)
    have pub: "published T0 n0 f s'"
      by (rule published_frame [OF pb]) (use pending_after [OF af, of n0] nk ct dueH in \<open>simp_all add: s'_def\<close>)
    have ar': "algRunning T0 n0 f s'"
      unfolding algRunning_def
    proof (intro allI impI ballI)
      fix j u
      assume j: "j < (5::nat)" and u: "u \<in> set (timers s')" and e: "tid u = n0 + 4 + j"
      from u have us: "u \<in> set (timers s)" "tid u \<noteq> tid t" by (auto simp: tm cancel_def)
      with e k have ji: "j \<noteq> i" by auto
      note o = other [OF j ji]
      note r = algRunningD [OF ar j us(1) e]
      show "algorithmProgress s' (Algorithm.name (ANALYSIS_ALGORITHMS ! j))
          = Some (of_nat (ticksOf T0 u) * incrementOf (ANALYSIS_ALGORITHMS ! j))
        \<and> algorithmAccuracy s' (Algorithm.name (ANALYSIS_ALGORITHMS ! j))
          = Some (76 / 100 + of_nat (ticksOf T0 u) * accuracyIncrementOf (File.name f) (ANALYSIS_ALGORITHMS ! j))
        \<and> Algorithm.name (ANALYSIS_ALGORITHMS ! j) \<notin> set (completedAlgorithms s')
        \<and> due u \<le> clock s' + 50"
        using r o ct by (simp add: s'_def)
    qed
    have ad': "algDone T0 n0 f s'"
      unfolding algDone_def
    proof (intro allI impI)
      fix j
      assume j: "j < (5::nat)" and np: "\<not> pending s' (n0 + 4 + j)"
      show "algorithmProgress s' (Algorithm.name (ANALYSIS_ALGORITHMS ! j)) = Some 100
        \<and> algorithmAccuracy s' (Algorithm.name (ANALYSIS_ALGORITHMS ! j))
            = Some (targetOf (File.name f) (ANALYSIS_ALGORITHMS ! j))
        \<and> Algorithm.name (ANALYSIS_ALGORITHMS ! j) \<in> set (completedAlgorithms s')
        \<and> T0 + duration (ANALYSIS_ALGORITHMS ! j) \<le> clock s'"
      proof (cases "j = i")
        case True
        then show ?thesis
          using du \<open>50 * (n + 1) = d\<close>
          by (simp add: s'_def a_def [symmetric] g_def [symmetric] d_def [symmetric])
      next
        case False
        then have "n0 + 4 + j \<noteq> tid t" using k by simp
        from pending_after [OF af this] np have "\<not> pending s (n0 + 4 + j)" by simp
        from algDoneD [OF ad j this] other [OF j False] ct show ?thesis
          by (simp add: s'_def)
      qed
    qed
    have dc': "distinct (completedAlgorithms s')"
      "set (completedAlgorithms s') \<subseteq> Algorithm.name ` set ANALYSIS_ALGORITHMS"
      using dc run(3) ain by (auto simp: s'_def)
    have I: "inSession T0 n0 f s'"
      unfolding inSession_def
      using c' af p9 pub ar' ad' dc' inv ct clk
      by (simp add: afterFire_def inSession_def)
    have pre: "progressOf s a = of_nat n * inc" "accuracyOf s a = 76 / 100 + of_nat n * ainc"
      using run(1,2) by (simp_all add: progressOf_def accuracyOf_def orElse_Some(1))
    have top: "of_nat (n + 1) * inc = 100" "76 / 100 + of_nat (n + 1) * ainc = g"
      using tv(3,4) True by simp_all
    have R: "tickRel f s s'"
      unfolding tickRel_def
    proof (intro conjI allI impI)
      show "prefix (completedAlgorithms s) (completedAlgorithms s')" by (simp add: s'_def)
    next
      fix j assume j: "j < (5::nat)"
      show "(algorithmProgress s' (Algorithm.name (ANALYSIS_ALGORITHMS ! j))
           = algorithmProgress s (Algorithm.name (ANALYSIS_ALGORITHMS ! j))
         \<and> algorithmAccuracy s' (Algorithm.name (ANALYSIS_ALGORITHMS ! j))
           = algorithmAccuracy s (Algorithm.name (ANALYSIS_ALGORITHMS ! j))
         \<and> (Algorithm.name (ANALYSIS_ALGORITHMS ! j) \<in> set (completedAlgorithms s')
              \<longleftrightarrow> Algorithm.name (ANALYSIS_ALGORITHMS ! j) \<in> set (completedAlgorithms s)))
      \<or> (Algorithm.name (ANALYSIS_ALGORITHMS ! j) \<notin> set (completedAlgorithms s)
         \<and> progressOf s' (ANALYSIS_ALGORITHMS ! j)
             = min (progressOf s (ANALYSIS_ALGORITHMS ! j) + incrementOf (ANALYSIS_ALGORITHMS ! j)) 100
         \<and> accuracyOf s' (ANALYSIS_ALGORITHMS ! j)
             = min (accuracyOf s (ANALYSIS_ALGORITHMS ! j)
                      + accuracyIncrementOf (File.name f) (ANALYSIS_ALGORITHMS ! j))
                   (targetOf (File.name f) (ANALYSIS_ALGORITHMS ! j))
         \<and> (Algorithm.name (ANALYSIS_ALGORITHMS ! j) \<in> set (completedAlgorithms s')
              \<longleftrightarrow> progressOf s' (ANALYSIS_ALGORITHMS ! j) = 100))"
      proof (cases "j = i")
        case True
        have "Algorithm.name a \<notin> set (completedAlgorithms s)
         \<and> progressOf s' a = min (progressOf s a + incrementOf a) 100
         \<and> accuracyOf s' a = min (accuracyOf s a + accuracyIncrementOf (File.name f) a) (targetOf (File.name f) a)
         \<and> (Algorithm.name a \<in> set (completedAlgorithms s') \<longleftrightarrow> progressOf s' a = 100)"
          unfolding inc ainc pre tick_next top g_def [symmetric]
          using run(3) by (simp add: s'_def progressOf_def accuracyOf_def orElse_def)
        then show ?thesis unfolding True a_def by (rule disjI2)
      next
        case False
        from other [OF j False] show ?thesis by (simp add: s'_def)
      qed
    qed
    have "load (T0 + 9000) (timers s') < load (T0 + 9000) (timers s)"
      unfolding tm using fired_cancel(5) [OF srt t w] dueH by simp
    with I R show ?thesis by (simp add: f)
  next
    case False
    with le have lt: "50 * (n + 1) < d" by simp
    from dv obtain m where m: "d = 50 * m" by (auto simp: dvd_def)
    with lt have le2: "50 * (n + 1 + 1) \<le> d" by arith
    define s' where "s' = s\<lparr>clock := due t, timers := reschedule (tid t) 50 (timers s),
        algorithmProgress := (algorithmProgress s)(Algorithm.name a \<mapsto> of_nat (n + 1) * inc),
        algorithmAccuracy := (algorithmAccuracy s)(Algorithm.name a \<mapsto> 76 / 100 + of_nat (n + 1) * ainc)\<rparr>"
    define t' where "t' = t\<lparr>due := due t + 50\<rparr>"
    have c': "ctl n0 f s'" using c by (simp add: ctl_def s'_def)
    have "algTick (tid t) (Algorithm.name a) inc g ainc s1 = s'"
      unfolding tick using False by (simp add: s1_def s'_def)
    then have f: "fire t s = s'" using commit_ctl [OF c'] by (simp add: f1)
    have tm: "timers s' = reschedule (tid t) 50 (timers s)" by (simp add: s'_def)
    have clk: "clock s' = due t" by (simp add: s'_def)
    have du': "due t' = T0 + 50 * (n + 1 + 1)" by (simp add: t'_def du)
    have w': "wellTimer T0 n0 f t'"
      by (rule wellTimer_algI [OF i _ _ _ du'])
        (use le2 in \<open>simp_all add: t'_def k per wellTimer_alg(2) [OF wt i k] d_def a_def\<close>)
    have p: "period t = Some 50" "0 < (50::nat)" using per by simp_all
    have af: "afterFire t (wellTimer T0 n0 f) (timers s) (timers s')"
      unfolding tm by (rule afterFire_reschedule [OF srt t w w' [unfolded t'_def] p])
    note fr = fired_reschedule [OF srt t w w' [unfolded t'_def] p]
    have pend: "pending s' x = pending s x" for x
      using fr(3) [of x] by (simp add: pending_def tm)
    have p9: "pending s' (n0 + 9)" "pending s' (n0 + 3)"
      using inv by (auto simp: inSession_def pend)
    have pub: "published T0 n0 f s'"
      by (rule published_frame [OF pb]) (use ct dueH in \<open>simp_all add: pend\<close>, simp_all add: s'_def)
    have ar': "algRunning T0 n0 f s'"
      unfolding algRunning_def
    proof (intro allI impI ballI)
      fix j u
      assume j: "j < (5::nat)" and u: "u \<in> set (timers s')" and e: "tid u = n0 + 4 + j"
      show "algorithmProgress s' (Algorithm.name (ANALYSIS_ALGORITHMS ! j))
          = Some (of_nat (ticksOf T0 u) * incrementOf (ANALYSIS_ALGORITHMS ! j))
        \<and> algorithmAccuracy s' (Algorithm.name (ANALYSIS_ALGORITHMS ! j))
          = Some (76 / 100 + of_nat (ticksOf T0 u) * accuracyIncrementOf (File.name f) (ANALYSIS_ALGORITHMS ! j))
        \<and> Algorithm.name (ANALYSIS_ALGORITHMS ! j) \<notin> set (completedAlgorithms s')
        \<and> due u \<le> clock s' + 50"
      proof (cases "j = i")
        case True
        with e k have "tid u = tid t" by simp
        with fr(5) u have ut: "u = t'" by (simp add: tm t'_def)
        have "ticksOf T0 u = n + 1" unfolding ut by (rule ticksOf_due [OF du'])
        then show ?thesis
          unfolding True a_def [symmetric] inc ainc
          using run(3) by (simp add: s'_def ut t'_def)
      next
        case False
        with e k have "tid u \<noteq> tid t" by simp
        with fr(4) u have us: "u \<in> set (timers s)" by (simp add: tm)
        from algRunningD [OF ar j us e] other [OF j False] ct show ?thesis
          by (simp add: s'_def)
      qed
    qed
    have ad': "algDone T0 n0 f s'"
      unfolding algDone_def
    proof (intro allI impI)
      fix j
      assume j: "j < (5::nat)" and np: "\<not> pending s' (n0 + 4 + j)"
      then have nps: "\<not> pending s (n0 + 4 + j)" by (simp add: pend)
      have "pending s (tid t)" using t by (auto simp: pending_def)
      with nps k have ji: "j \<noteq> i" by auto
      from algDoneD [OF ad j nps] other [OF j ji] ct
      show "algorithmProgress s' (Algorithm.name (ANALYSIS_ALGORITHMS ! j)) = Some 100
        \<and> algorithmAccuracy s' (Algorithm.name (ANALYSIS_ALGORITHMS ! j))
            = Some (targetOf (File.name f) (ANALYSIS_ALGORITHMS ! j))
        \<and> Algorithm.name (ANALYSIS_ALGORITHMS ! j) \<in> set (completedAlgorithms s')
        \<and> T0 + duration (ANALYSIS_ALGORITHMS ! j) \<le> clock s'"
        by (simp add: s'_def)
    qed
    have dc': "distinct (completedAlgorithms s')"
      "set (completedAlgorithms s') \<subseteq> Algorithm.name ` set ANALYSIS_ALGORITHMS"
      using dc by (simp_all add: s'_def)
    have I: "inSession T0 n0 f s'"
      unfolding inSession_def
      using c' af p9 pub ar' ad' dc' inv ct clk
      by (simp add: afterFire_def inSession_def)
    have pre: "progressOf s a = of_nat n * inc" "accuracyOf s a = 76 / 100 + of_nat n * ainc"
      using run(1,2) by (simp_all add: progressOf_def accuracyOf_def orElse_Some(1))
    have below: "of_nat (n + 1) * inc \<noteq> 100" using tv(3) False by simp
    have post: "progressOf s' a = of_nat (n + 1) * inc" "accuracyOf s' a = 76 / 100 + of_nat (n + 1) * ainc"
      by (simp_all add: s'_def progressOf_def accuracyOf_def orElse_def)
    have R: "tickRel f s s'"
      unfolding tickRel_def
    proof (intro conjI allI impI)
      show "prefix (completedAlgorithms s) (completedAlgorithms s')" by (simp add: s'_def)
    next
      fix j assume j: "j < (5::nat)"
      show "(algorithmProgress s' (Algorithm.name (ANALYSIS_ALGORITHMS ! j))
           = algorithmProgress s (Algorithm.name (ANALYSIS_ALGORITHMS ! j))
         \<and> algorithmAccuracy s' (Algorithm.name (ANALYSIS_ALGORITHMS ! j))
           = algorithmAccuracy s (Algorithm.name (ANALYSIS_ALGORITHMS ! j))
         \<and> (Algorithm.name (ANALYSIS_ALGORITHMS ! j) \<in> set (completedAlgorithms s')
              \<longleftrightarrow> Algorithm.name (ANALYSIS_ALGORITHMS ! j) \<in> set (completedAlgorithms s)))
      \<or> (Algorithm.name (ANALYSIS_ALGORITHMS ! j) \<notin> set (completedAlgorithms s)
         \<and> progressOf s' (ANALYSIS_ALGORITHMS ! j)
             = min (progressOf s (ANALYSIS_ALGORITHMS ! j) + incrementOf (ANALYSIS_ALGORITHMS ! j)) 100
         \<and> accuracyOf s' (ANALYSIS_ALGORITHMS ! j)
             = min (accuracyOf s (ANALYSIS_ALGORITHMS ! j)
                      + accuracyIncrementOf (File.name f) (ANALYSIS_ALGORITHMS ! j))
                   (targetOf (File.name f) (ANALYSIS_ALGORITHMS ! j))
         \<and> (Algorithm.name (ANALYSIS_ALGORITHMS ! j) \<in> set (completedAlgorithms s')
              \<longleftrightarrow> progressOf s' (ANALYSIS_ALGORITHMS ! j) = 100))"
      proof (cases "j = i")
        case True
        have "Algorithm.name a \<notin> set (completedAlgorithms s)
         \<and> progressOf s' a = min (progressOf s a + incrementOf a) 100
         \<and> accuracyOf s' a = min (accuracyOf s a + accuracyIncrementOf (File.name f) a) (targetOf (File.name f) a)
         \<and> (Algorithm.name a \<in> set (completedAlgorithms s') \<longleftrightarrow> progressOf s' a = 100)"
          unfolding inc ainc pre post tick_next g_def [symmetric]
          using run(3) tv(1,2) below by (simp add: s'_def)
        then show ?thesis unfolding True a_def by (rule disjI2)
      next
        case False
        from other [OF j False] show ?thesis by (simp add: s'_def)
      qed
    qed
    have "load (T0 + 9000) (timers s') < load (T0 + 9000) (timers s)"
      unfolding tm using fr(6) dueH by simp
    with I R show ?thesis by (simp add: f)
  qed
qed

section \<open>The roster timeout and the whole session\<close>

lemma cancel_all:
  assumes "\<forall>u \<in> set ts. tid u = a \<or> tid u = b \<or> tid u = c \<or> tid u = e"
  shows "cancel c (cancel b (cancel a (cancel e ts))) = []"
  using assms by (auto simp: cancel_def filter_empty_conv)

lemma fire_rosterDone:
  assumes inv: "inSession T0 n0 f s"
    and t: "t \<in> set (timers s)" and tmin: "\<forall>u \<in> set (timers s). due t \<le> due u"
    and tfirst: "\<forall>u \<in> set (timers s). due u = due t \<longrightarrow> tid t \<le> tid u"
    and k: "tid t = n0 + 9"
  shows "finished T0 f s (fire t s)"
proof -
  have wt: "wellTimer T0 n0 f t" using inSession_timer(2) [OF inv t] .
  note a = wellTimer_tid(5) [OF wt k]
  have c: "ctl n0 f s" and ad: "algDone T0 n0 f s" and pb: "published T0 n0 f s"
    using inv by (auto simp: inSession_def)
  have np: "\<not> pending s n0"
  proof
    assume "pending s n0"
    then obtain u where u: "u \<in> set (timers s)" "tid u = n0" by (auto simp: pending_def)
    from wellTimer_tid(1) [OF inSession_timer(2) [OF inv u(1)] u(2)] a have "due u = due t" by simp
    with tfirst u k show False by auto
  qed
  with pb have res: "result s = Some (generateConsistentResult f)" "clock s = T0 + 9000"
    by (simp_all add: published_def)
  have na: "\<not> pending s (n0 + 4 + j)" if j: "j < 5" for j
  proof
    assume "pending s (n0 + 4 + j)"
    then obtain u where u: "u \<in> set (timers s)" "tid u = n0 + 4 + j" by (auto simp: pending_def)
    note al = wellTimer_alg [OF inSession_timer(2) [OF inv u(1)] j u(2)]
    from al(3,4) roster_duration(3) [OF j] have "due u \<le> T0 + 8000" by simp
    moreover from tmin u a have "T0 + 9000 \<le> due u" by auto
    ultimately show False by simp
  qed
  have dn: "\<forall>i<5. algorithmProgress s (Algorithm.name (ANALYSIS_ALGORITHMS ! i)) = Some 100
          \<and> algorithmAccuracy s (Algorithm.name (ANALYSIS_ALGORITHMS ! i))
              = Some (targetOf (File.name f) (ANALYSIS_ALGORITHMS ! i))
          \<and> Algorithm.name (ANALYSIS_ALGORITHMS ! i) \<in> set (completedAlgorithms s)"
    using algDoneD(1,2,3) [OF ad _ na] by blast
  have left: "\<forall>u \<in> set (timers s). tid u = n0 + 1 \<or> tid u = n0 + 2 \<or> tid u = n0 + 3 \<or> tid u = n0 + 9"
  proof
    fix u assume u: "u \<in> set (timers s)"
    from wellTimer_kinds [OF inSession_timer(2) [OF inv u]] np na u
    show "tid u = n0 + 1 \<or> tid u = n0 + 2 \<or> tid u = n0 + 3 \<or> tid u = n0 + 9"
      by (auto simp: pending_def)
  qed
  have empty: "cancel (n0 + 3) (cancel (n0 + 2) (cancel (n0 + 1) (cancel (n0 + 9) (timers s)))) = []"
    by (rule cancel_all [OF left])
  define X where "X = s\<lparr>clock := due t, timers := cancel (tid t) (timers s),
      isAnalyzing := False, processingImage := None\<rparr>"
  have f: "fire t s = commit X"
    using a by (simp add: fire_def Let_def X_def)
  have od: "overallDeps X \<noteq> Some (isAnalyzing X, processingImage X)"
    and rd: "rosterDeps X \<noteq> Some (isAnalyzing X, currentFileName X)"
    and oc: "overallCleanup X = [n0 + 1, n0 + 2, n0 + 3]"
    using c by (simp_all add: X_def ctl_def)
  have fields: "\<not> isAnalyzing (commit X)" "processingImage (commit X) = None"
    "timers (commit X) = []"
    "overallDeps (commit X) = Some (False, None)"
    "rosterDeps (commit X) = Some (False, currentFileName (commit X))"
    "overallCleanup (commit X) = []" "analysisProgress (commit X) = 0" "analysisStep (commit X) = 0"
    "algorithmProgress (commit X) = allAlgorithms 0"
    "algorithmAccuracy (commit X) = allAlgorithms (76 / 100)"
    "completedAlgorithms (commit X) = []"
    "clock (commit X) = due t" "result (commit X) = result s"
    "currentFileName (commit X) = currentFileName s"
    using od rd oc empty
    by (simp_all add: commit_def Let_def overallEffect_def rosterEffect_def clearTimer_def X_def k)
  have "idle (commit X)" unfolding idle_def using fields by simp
  then show ?thesis
    unfolding finished_def f using fields(12,13,14) res a dn c by (simp add: ctl_def)
qed

lemma session_step:
  assumes inv: "inSession T0 n0 f s"
  shows "(inSession T0 n0 f (step s) \<and> tickRel f s (step s)
           \<and> load (T0 + 9000) (timers (step s)) < load (T0 + 9000) (timers s))
         \<or> finished T0 f s (step s)"
proof -
  obtain r where r: "r \<in> set (timers s)" "tid r = n0 + 9" "due r = T0 + 9000"
    using roster_timer [OF inv] .
  then have "timers s \<noteq> []" by auto
  then obtain t where e: "earliest (timers s) = Some t"
    using earliest_None [of "timers s"] by (cases "earliest (timers s)") auto
  have st: "step s = fire t s" by (simp add: step_def e)
  have t: "t \<in> set (timers s)" and tmin: "\<forall>u \<in> set (timers s). due t \<le> due u"
    using earliest_Some [OF e] by auto
  have srt: "sorted_wrt (<) (map tid (timers s))" using inv by (simp add: inSession_def)
  have tfirst: "\<forall>u \<in> set (timers s). due u = due t \<longrightarrow> tid t \<le> tid u"
    using earliest_first [OF srt e] by blast
  have dueH: "due t \<le> T0 + 9000" using tmin r by auto
  have wt: "wellTimer T0 n0 f t" using inSession_timer(2) [OF inv t] .
  from wellTimer_kinds [OF wt]
  consider "tid t = n0" | "tid t = n0 + 1" | "tid t = n0 + 2" | "tid t = n0 + 3"
    | i where "i < 5" "tid t = n0 + 4 + i" | "tid t = n0 + 9"
    by blast
  then show ?thesis
  proof cases
    case 1
    from fire_publish [OF inv t tmin 1] show ?thesis by (simp add: st)
  next
    case 2
    from fire_overallTick [OF inv t tmin dueH 2] show ?thesis by (simp add: st)
  next
    case 3
    from fire_stepTick [OF inv t tmin dueH 3] show ?thesis by (simp add: st)
  next
    case 4
    from wellTimer_tid(4) [OF wt 4] dueH overallWindow_late [of f] have False by simp
    then show ?thesis ..
  next
    case (5 i)
    from fire_algTick [OF inv t tmin 5] show ?thesis by (simp add: st)
  next
    case 6
    from fire_rosterDone [OF inv t tmin tfirst 6] show ?thesis by (simp add: st)
  qed
qed

lemma steps_step: "steps m (step s) = step (steps m s)"
  by (induction m arbitrary: s) simp_all

lemma session_run:
  assumes "inSession T0 n0 f s"
  shows "\<exists>n. (\<forall>m\<le>n. inSession T0 n0 f (steps m s))
            \<and> (\<forall>m<n. tickRel f (steps m s) (steps (Suc m) s))
            \<and> finished T0 f (steps n s) (steps (Suc n) s)"
  using assms
proof (induction "load (T0 + 9000) (timers s)" arbitrary: s rule: less_induct)
  case less
  from session_step [OF less.prems]
  show ?case
  proof
    assume a: "inSession T0 n0 f (step s) \<and> tickRel f s (step s)
           \<and> load (T0 + 9000) (timers (step s)) < load (T0 + 9000) (timers s)"
    from less.hyps [of "step s"] a obtain n where
      n: "\<forall>m\<le>n. inSession T0 n0 f (steps m (step s))"
         "\<forall>m<n. tickRel f (steps m (step s)) (steps (Suc m) (step s))"
         "finished T0 f (steps n (step s)) (steps (Suc n) (step s))"
      by blast
    have "\<forall>m\<le>Suc n. inSession T0 n0 f (steps m s)"
    proof (intro allI impI)
      fix m assume "m \<le> Suc n"
      then show "inSession T0 n0 f (steps m s)"
        using n(1) less.prems by (cases m) simp_all
    qed
    moreover have "\<forall>m<Suc n. tickRel f (steps m s) (steps (Suc m) s)"
    proof (intro allI impI)
      fix m assume "m < Suc n"
      then show "tickRel f (steps m s) (steps (Suc m) s)"
        using n(2) a by (cases m) simp_all
    qed
    moreover have "finished T0 f (steps (Suc n) s) (steps (Suc (Suc n)) s)"
      using n(3) by simp
    ultimately show ?thesis by blast
  next
    assume "finished T0 f s (step s)"
    with less.prems have "(\<forall>m\<le>0. inSession T0 n0 f (steps m s))
            \<and> (\<forall>m<0. tickRel f (steps m s) (steps (Suc m) s))
            \<and> finished T0 f (steps 0 s) (steps (Suc 0) s)"
      by simp
    then show ?thesis by blast
  qed
qed

section \<open>Closed form of the run state\<close>

lemma tick_bounds:
  assumes d: "0 < d" and g: "76 / 100 < (g :: rat)" and le: "50 * k \<le> d"
  shows "0 \<le> of_nat k * (100 * 50 / of_nat d :: rat)"
    and "of_nat k * (100 * 50 / of_nat d) \<le> (100 :: rat)"
    and "(of_nat k * (100 * 50 / of_nat d) = (100 :: rat)) = (50 * k = d)"
    and "76 / 100 \<le> 76 / 100 + of_nat k * ((g - 76 / 100) * 50 / of_nat d)"
    and "76 / 100 + of_nat k * ((g - 76 / 100) * 50 / of_nat d) \<le> g"
    and "50 * k = d \<Longrightarrow> 76 / 100 + of_nat k * ((g - 76 / 100) * 50 / of_nat d) = g"
proof -
  define x :: rat where "x = of_nat (50 * k) / of_nat d"
  have x1: "x \<le> 1" unfolding x_def using le d by (simp only: fraction_le_one)
  have x0: "0 \<le> x" unfolding x_def by simp
  have e1: "of_nat k * (100 * 50 / of_nat d) = 100 * x"
    and e2: "76 / 100 + of_nat k * ((g - 76 / 100) * 50 / of_nat d) = 76 / 100 + (g - 76 / 100) * x"
    unfolding x_def using d by (simp_all add: field_simps)
  show "0 \<le> of_nat k * (100 * 50 / of_nat d :: rat)" by simp
  show "of_nat k * (100 * 50 / of_nat d) \<le> (100 :: rat)"
    unfolding e1 using x1 by simp
  have "(100 * x = 100) = (x = 1)" by simp
  also have "\<dots> = (50 * k = d)"
    unfolding x_def by (rule fraction_le_one(3) [OF d])
  finally show "(of_nat k * (100 * 50 / of_nat d) = (100 :: rat)) = (50 * k = d)"
    unfolding e1 .
  have "0 \<le> (g - 76 / 100) * x" using g x0 by simp
  then show "76 / 100 \<le> 76 / 100 + of_nat k * ((g - 76 / 100) * 50 / of_nat d)"
    unfolding e2 by simp
  have "(g - 76 / 100) * x \<le> (g - 76 / 100) * 1"
    using g x1 by (intro mult_left_mono) simp_all
  then show "76 / 100 + of_nat k * ((g - 76 / 100) * 50 / of_nat d) \<le> g"
    unfolding e2 by simp
  show "50 * k = d \<Longrightarrow> 76 / 100 + of_nat k * ((g - 76 / 100) * 50 / of_nat d) = g"
    unfolding e2 x_def using d by simp
qed

lemma inSession_ticked:
  assumes inv: "inSession T0 n0 f s" and i: "i < 5"
  shows "\<exists>k. ticked T0 f s (ANALYSIS_ALGORITHMS ! i) k"
proof -
  define a where "a = ANALYSIS_ALGORITHMS ! i"
  have ar: "algRunning T0 n0 f s" and ad: "algDone T0 n0 f s"
    using inv by (auto simp: inSession_def)
  have d0: "0 < duration a" and dv: "50 dvd duration a"
    using roster_duration [OF i] by (simp_all add: a_def)
  have g0: "76 / 100 < targetOf (File.name f) a" by (rule targetOf_above)
  show ?thesis
  proof (cases "pending s (n0 + 4 + i)")
    case True
    then obtain u where u: "u \<in> set (timers s)" "tid u = n0 + 4 + i"
      by (auto simp: pending_def)
    define k where "k = ticksOf T0 u"
    note al = wellTimer_alg [OF inSession_timer(2) [OF inv u(1)] i u(2), folded k_def a_def]
    note run = algRunningD [OF ar i u, folded k_def a_def]
    have cu: "clock s \<le> due u" by (rule inSession_timer(1) [OF inv u(1)])
    have lt: "50 * k < duration a" using al(4) by simp
    have c5: "T0 + 50 * k \<le> clock s" using run(4) al(3) by simp
    have c6: "clock s \<le> T0 + 50 * (k + 1)" using cu al(3) by simp
    have c4: "(Algorithm.name a \<in> set (completedAlgorithms s)) = (50 * k = duration a)"
      using run(3) lt by simp
    have "ticked T0 f s a k"
      unfolding ticked_def using lt run(1,2) c4 c5 c6 by (intro conjI impI) simp_all
    then show ?thesis unfolding a_def by blast
  next
    case False
    note dn = algDoneD [OF ad i False, folded a_def]
    from dv obtain k where "duration a = 50 * k" by (auto simp: dvd_def)
    then have e: "50 * k = duration a" by simp
    then have le: "50 * k \<le> duration a" by simp
    note tb = tick_bounds [OF d0 g0 le, folded incrementOf_def accuracyIncrementOf_def]
    have p: "of_nat k * incrementOf a = 100" by (rule iffD2 [OF tb(3) e])
    have q: "76 / 100 + of_nat k * accuracyIncrementOf (File.name f) a = targetOf (File.name f) a"
      by (rule tb(6) [OF e])
    have c5: "T0 + 50 * k \<le> clock s" unfolding e by (rule dn(4))
    have c4: "(Algorithm.name a \<in> set (completedAlgorithms s)) = (50 * k = duration a)"
      using dn(3) e by blast
    have c6: "50 * k < duration a \<longrightarrow> clock s \<le> T0 + 50 * (k + 1)" using e by linarith
    have "ticked T0 f s a k"
      unfolding ticked_def p q by (intro conjI le dn(1) dn(2) c4 c5 c6)
    then show ?thesis unfolding a_def by blast
  qed
qed

lemma ticked_values:
  assumes t: "ticked T0 f s a k" and d0: "0 < duration a"
  shows "progressOf s a = of_nat k * incrementOf a"
    and "accuracyOf s a = 76 / 100 + of_nat k * accuracyIncrementOf (File.name f) a"
    and "0 \<le> progressOf s a" and "progressOf s a \<le> 100"
    and "76 / 100 \<le> accuracyOf s a" and "accuracyOf s a \<le> targetOf (File.name f) a"
    and "(progressOf s a = 100) = (50 * k = duration a)"
    and "50 * k = duration a \<Longrightarrow> accuracyOf s a = targetOf (File.name f) a"
proof -
  have g0: "76 / 100 < targetOf (File.name f) a" by (rule targetOf_above)
  have le: "50 * k \<le> duration a" using t by (simp add: ticked_def)
  note tb = tick_bounds [OF d0 g0 le, folded incrementOf_def accuracyIncrementOf_def]
  show p: "progressOf s a = of_nat k * incrementOf a"
    using t by (simp add: ticked_def progressOf_def orElse_Some(1))
  show q: "accuracyOf s a = 76 / 100 + of_nat k * accuracyIncrementOf (File.name f) a"
    using t by (simp add: ticked_def accuracyOf_def)
  show "0 \<le> progressOf s a" "progressOf s a \<le> 100"
    "76 / 100 \<le> accuracyOf s a" "accuracyOf s a \<le> targetOf (File.name f) a"
    "(progressOf s a = 100) = (50 * k = duration a)"
    "50 * k = duration a \<Longrightarrow> accuracyOf s a = targetOf (File.name f) a"
    unfolding p q using tb by simp_all
qed

section \<open>Consequences for a session\<close>

lemma session_exists:
  assumes "idle s0" "File.name f \<noteq> []"
  obtains n where "\<And>m. m \<le> n \<Longrightarrow> inSession (clock s0) (nextTimer s0) f (steps m (submit f s0))"
    and "\<And>m. m < n \<Longrightarrow> tickRel f (steps m (submit f s0)) (steps (Suc m) (submit f s0))"
    and "finished (clock s0) f (steps n (submit f s0)) (steps (Suc n) (submit f s0))"
  using session_run [OF submit_inSession [OF assms]] by blast

lemma roster_index:
  assumes "a \<in> set ANALYSIS_ALGORITHMS"
  obtains i where "i < 5" "a = ANALYSIS_ALGORITHMS ! i"
  using assms by (auto simp: in_set_conv_nth roster_length)

lemma inSession_control:
  assumes inv: "inSession T0 n0 f s"
  shows "isAnalyzing s" and "clock s \<le> T0 + 9000"
    and "\<exists>t \<in> set (timers s). act t = OverallDone \<and> due t = T0 + overallWindow f"
    and "clock s < T0 + 9000 \<Longrightarrow> result s = None"
    and "distinct (completedAlgorithms s)"
proof -
  show "isAnalyzing s" "distinct (completedAlgorithms s)"
    using inv by (simp_all add: inSession_def ctl_def)
  obtain r where r: "r \<in> set (timers s)" "tid r = n0 + 9" "due r = T0 + 9000"
    using roster_timer [OF inv] .
  from inSession_timer(1) [OF inv r(1)] r(3) show "clock s \<le> T0 + 9000" by simp
  from inv obtain t where t: "t \<in> set (timers s)" "tid t = n0 + 3"
    by (auto simp: inSession_def pending_def)
  from wellTimer_tid(4) [OF inSession_timer(2) [OF inv t(1)] t(2)] t(1)
  show "\<exists>t \<in> set (timers s). act t = OverallDone \<and> due t = T0 + overallWindow f"
    by blast
  from inv have "published T0 n0 f s" by (simp add: inSession_def)
  then show "clock s < T0 + 9000 \<Longrightarrow> result s = None"
    by (auto simp: published_def split: if_splits)
qed

lemma tickRel_alg:
  assumes r: "tickRel f s s'" and i: "i < 5"
  shows "(progressOf s' (ANALYSIS_ALGORITHMS ! i) = progressOf s (ANALYSIS_ALGORITHMS ! i)
          \<and> accuracyOf s' (ANALYSIS_ALGORITHMS ! i) = accuracyOf s (ANALYSIS_ALGORITHMS ! i)
          \<and> (Algorithm.name (ANALYSIS_ALGORITHMS ! i) \<in> set (completedAlgorithms s')
              \<longleftrightarrow> Algorithm.name (ANALYSIS_ALGORITHMS ! i) \<in> set (completedAlgorithms s)))
       \<or> (Algorithm.name (ANALYSIS_ALGORITHMS ! i) \<notin> set (completedAlgorithms s)
          \<and> progressOf s' (ANALYSIS_ALGORITHMS ! i)
             = min (progressOf s (ANALYSIS_ALGORITHMS ! i) + incrementOf (ANALYSIS_ALGORITHMS ! i)) 100
          \<and> accuracyOf s' (ANALYSIS_ALGORITHMS ! i)
             = min (accuracyOf s (ANALYSIS_ALGORITHMS ! i)
                      + accuracyIncrementOf (File.name f) (ANALYSIS_ALGORITHMS ! i))
                   (targetOf (File.name f) (ANALYSIS_ALGORITHMS ! i)))"
  using r i unfolding tickRel_def progressOf_def accuracyOf_def by metis

lemma increments_nonneg:
  assumes "0 < duration a"
  shows "0 \<le> incrementOf a" "0 \<le> accuracyIncrementOf fileName a"
  using targetOf_above [of fileName a] by (simp_all add: incrementOf_def accuracyIncrementOf_def)

lemma tickRel_mono:
  assumes r: "tickRel f s s'" and inv: "inSession T0 n0 f s" and i: "i < 5"
  shows "progressOf s (ANALYSIS_ALGORITHMS ! i) \<le> progressOf s' (ANALYSIS_ALGORITHMS ! i)"
    and "accuracyOf s (ANALYSIS_ALGORITHMS ! i) \<le> accuracyOf s' (ANALYSIS_ALGORITHMS ! i)"
proof -
  define a where "a = ANALYSIS_ALGORITHMS ! i"
  have d0: "0 < duration a" using roster_duration(1) [OF i] by (simp add: a_def)
  obtain k where k: "ticked T0 f s a k"
    using inSession_ticked [OF inv i] by (auto simp: a_def)
  note tv = ticked_values [OF k d0]
  note nn = increments_nonneg(1) [OF d0] increments_nonneg(2) [OF d0, where fileName = "File.name f"]
  note ta = tickRel_alg [OF r i, folded a_def]
  from ta tv(4) nn(1) show "progressOf s (ANALYSIS_ALGORITHMS ! i) \<le> progressOf s' (ANALYSIS_ALGORITHMS ! i)"
    unfolding a_def [symmetric] by (auto simp: min_def)
  from ta tv(6) nn(2) show "accuracyOf s (ANALYSIS_ALGORITHMS ! i) \<le> accuracyOf s' (ANALYSIS_ALGORITHMS ! i)"
    unfolding a_def [symmetric] by (auto simp: min_def)
qed

lemma tickRel_completed:
  assumes r: "tickRel f s s'" and i: "i < 5"
    and c: "Algorithm.name (ANALYSIS_ALGORITHMS ! i) \<in> set (completedAlgorithms s)"
  shows "progressOf s' (ANALYSIS_ALGORITHMS ! i) = progressOf s (ANALYSIS_ALGORITHMS ! i)"
    and "accuracyOf s' (ANALYSIS_ALGORITHMS ! i) = accuracyOf s (ANALYSIS_ALGORITHMS ! i)"
    and "Algorithm.name (ANALYSIS_ALGORITHMS ! i) \<in> set (completedAlgorithms s')"
  using tickRel_alg [OF r i] c by blast+

lemma submit_start:
  assumes "idle s0" "File.name f \<noteq> []" "i < 5"
  shows "progressOf (submit f s0) (ANALYSIS_ALGORITHMS ! i) = 0"
    and "accuracyOf (submit f s0) (ANALYSIS_ALGORITHMS ! i) = 76 / 100"
    and "completedAlgorithms (submit f s0) = []"
  using submit_fields(8,9,10) [OF assms(1,2)] allAlgorithms_nth [OF assms(3)]
  by (simp_all add: progressOf_def accuracyOf_def orElse_def)

lemma finished_alg:
  assumes fin: "finished T0 f s s'" and i: "i < 5"
  shows "progressOf s (ANALYSIS_ALGORITHMS ! i) = 100"
    and "accuracyOf s (ANALYSIS_ALGORITHMS ! i) = targetOf (File.name f) (ANALYSIS_ALGORITHMS ! i)"
    and "Algorithm.name (ANALYSIS_ALGORITHMS ! i) \<in> set (completedAlgorithms s)"
  using fin i by (simp_all add: finished_def progressOf_def accuracyOf_def orElse_def)

lemma finished_control:
  assumes fin: "finished T0 f s s'"
  shows "\<not> isAnalyzing s'" and "result s' = Some (generateConsistentResult f)"
    and "clock s' = T0 + 9000" and "timers s' = []" and "idle s'"
  using fin by (simp_all add: finished_def idle_def)

section \<open>Reveal of the result\<close>

text \<open>
  Claim C5. A file with a non-empty name is submitted in a state at rest, at time
  \<open>clock s0\<close>. Then the session is a finite run of timer firings: in each of its states the
  component is analysing, the clock is at most \<open>maxDuration + 1000\<close> after the start, the
  result is unset as long as the clock is before that time, and the timeout of the
  overall-progress effect (10 s for an image, 15 s otherwise) is still pending, so it has
  not ended the session. The next firing, that of the roster timeout, happens exactly
  \<open>maxDuration + 1000 = 9000\<close> ms after the start and leaves \<^verbatim>\<open>isAnalyzing\<close> false, the
  result computed at submission published, and no timer pending.
\<close>

theorem reveal_at_roster_timeout:
  assumes "idle s0" and "File.name f \<noteq> []"
  shows "\<exists>n. (\<forall>m\<le>n. isAnalyzing (steps m (submit f s0))
                \<and> clock (steps m (submit f s0)) \<le> clock s0 + (maxDuration + 1000)
                \<and> (clock (steps m (submit f s0)) < clock s0 + (maxDuration + 1000)
                     \<longrightarrow> result (steps m (submit f s0)) = None)
                \<and> (\<exists>t \<in> set (timers (steps m (submit f s0))). act t = OverallDone
                     \<and> due t = clock s0 + (if startsWith (type f) ''image/'' then 10000 else 15000)))
            \<and> \<not> isAnalyzing (steps (Suc n) (submit f s0))
            \<and> result (steps (Suc n) (submit f s0)) = Some (generateConsistentResult f)
            \<and> clock (steps (Suc n) (submit f s0)) = clock s0 + (maxDuration + 1000)
            \<and> maxDuration + 1000 = 9000
            \<and> timers (steps (Suc n) (submit f s0)) = []"
proof -
  obtain n where inv: "\<And>m. m \<le> n \<Longrightarrow> inSession (clock s0) (nextTimer s0) f (steps m (submit f s0))"
    and fin: "finished (clock s0) f (steps n (submit f s0)) (steps (Suc n) (submit f s0))"
    using session_exists [OF assms] by blast
  have md: "maxDuration + 1000 = 9000" by (simp add: maxDuration_value)
  have a: "\<forall>m\<le>n. isAnalyzing (steps m (submit f s0))
                \<and> clock (steps m (submit f s0)) \<le> clock s0 + (maxDuration + 1000)
                \<and> (clock (steps m (submit f s0)) < clock s0 + (maxDuration + 1000)
                     \<longrightarrow> result (steps m (submit f s0)) = None)
                \<and> (\<exists>t \<in> set (timers (steps m (submit f s0))). act t = OverallDone
                     \<and> due t = clock s0 + (if startsWith (type f) ''image/'' then 10000 else 15000))"
    unfolding md using inSession_control(1,2,3,4) [OF inv]
    by (simp add: overallWindow_def)
  from a md finished_control(1,2,3,4) [OF fin] show ?thesis
    unfolding md by blast
qed

theorem reveal_at_roster_timeout_witness:
  "idle mounted \<and> File.name scanA \<noteq> []
   \<and> (\<exists>n. \<not> isAnalyzing (steps (Suc n) (submit scanA mounted))
          \<and> isAnalyzing (steps n (submit scanA mounted))
          \<and> result (steps (Suc n) (submit scanA mounted)) = Some (generateConsistentResult scanA)
          \<and> clock (steps (Suc n) (submit scanA mounted)) = 9000)"
proof -
  have h1: "idle mounted" by (rule idle_mounted)
  have h2: "File.name scanA \<noteq> []" by (simp add: scanA_def)
  have c: "clock mounted = 0"
    by (simp add: mounted_def initial_def commit_def Let_def overallEffect_def rosterEffect_def)
  from reveal_at_roster_timeout [OF h1 h2] obtain n where
    "\<not> isAnalyzing (steps (Suc n) (submit scanA mounted))"
    "isAnalyzing (steps n (submit scanA mounted))"
    "result (steps (Suc n) (submit scanA mounted)) = Some (generateConsistentResult scanA)"
    "clock (steps (Suc n) (submit scanA mounted)) = clock mounted + (maxDuration + 1000)"
    "maxDuration + 1000 = 9000"
    by blast
  with h1 h2 c show ?thesis by auto
qed

section \<open>Progress and accuracy\<close>

text \<open>
  Claim C6. In the session of a file with a non-empty name submitted in a state at rest,
  for every algorithm \<open>a\<close> of the roster: progress starts at 0 and accuracy at 0.76; each
  step of the session either leaves both unchanged or adds \<open>100 * 50 / duration a\<close> to the
  progress, clamped at 100, and \<open>(target - 0.76) * 50 / duration a\<close> to the accuracy, clamped
  at the target; both are non-decreasing from step to step; in every state they are the
  values after \<open>k\<close> ticks, where \<open>k\<close> is the number of 50 ms periods elapsed, up to
  \<open>duration a / 50\<close>; they never exceed 100 and the target; and in the last state of the
  session the progress is exactly 100 and the accuracy exactly the target accuracy.
\<close>

theorem progress_and_accuracy_trajectory:
  assumes "idle s0" and "File.name f \<noteq> []" and "a \<in> set ANALYSIS_ALGORITHMS"
  shows "\<exists>n. (\<forall>m\<le>n. isAnalyzing (steps m (submit f s0)))
            \<and> \<not> isAnalyzing (steps (Suc n) (submit f s0))
            \<and> progressOf (submit f s0) a = 0 \<and> accuracyOf (submit f s0) a = 76 / 100
            \<and> (\<forall>m<n.
                  (progressOf (steps (Suc m) (submit f s0)) a = progressOf (steps m (submit f s0)) a
                   \<and> accuracyOf (steps (Suc m) (submit f s0)) a = accuracyOf (steps m (submit f s0)) a)
                \<or> (progressOf (steps (Suc m) (submit f s0)) a
                      = min (progressOf (steps m (submit f s0)) a + incrementOf a) 100
                   \<and> accuracyOf (steps (Suc m) (submit f s0)) a
                      = min (accuracyOf (steps m (submit f s0)) a + accuracyIncrementOf (File.name f) a)
                            (targetOf (File.name f) a)))
            \<and> (\<forall>m<n. progressOf (steps m (submit f s0)) a \<le> progressOf (steps (Suc m) (submit f s0)) a
                     \<and> accuracyOf (steps m (submit f s0)) a \<le> accuracyOf (steps (Suc m) (submit f s0)) a)
            \<and> (\<forall>m\<le>n. \<exists>k. 50 * k \<le> duration a
                     \<and> progressOf (steps m (submit f s0)) a = of_nat k * incrementOf a
                     \<and> accuracyOf (steps m (submit f s0)) a
                         = 76 / 100 + of_nat k * accuracyIncrementOf (File.name f) a
                     \<and> clock s0 + 50 * k \<le> clock (steps m (submit f s0))
                     \<and> (50 * k < duration a \<longrightarrow> clock (steps m (submit f s0)) \<le> clock s0 + 50 * (k + 1)))
            \<and> (\<forall>m\<le>n. progressOf (steps m (submit f s0)) a \<le> 100
                     \<and> accuracyOf (steps m (submit f s0)) a \<le> targetOf (File.name f) a)
            \<and> progressOf (steps n (submit f s0)) a = 100
            \<and> accuracyOf (steps n (submit f s0)) a = targetOf (File.name f) a"
proof -
  obtain i where i: "i < 5" and ai: "a = ANALYSIS_ALGORITHMS ! i"
    using roster_index [OF assms(3)] .
  obtain n where inv: "\<And>m. m \<le> n \<Longrightarrow> inSession (clock s0) (nextTimer s0) f (steps m (submit f s0))"
    and rel: "\<And>m. m < n \<Longrightarrow> tickRel f (steps m (submit f s0)) (steps (Suc m) (submit f s0))"
    and fin: "finished (clock s0) f (steps n (submit f s0)) (steps (Suc n) (submit f s0))"
    using session_exists [OF assms(1,2)] by blast
  have d0: "0 < duration a" using roster_duration(1) [OF i] by (simp add: ai)
  have c1: "\<forall>m\<le>n. isAnalyzing (steps m (submit f s0))"
    using inSession_control(1) [OF inv] by blast
  have c2: "\<not> isAnalyzing (steps (Suc n) (submit f s0))"
    by (rule finished_control(1) [OF fin])
  have c3: "progressOf (submit f s0) a = 0" "accuracyOf (submit f s0) a = 76 / 100"
    unfolding ai by (rule submit_start [OF assms(1,2) i])+
  have c4: "\<forall>m<n.
                  (progressOf (steps (Suc m) (submit f s0)) a = progressOf (steps m (submit f s0)) a
                   \<and> accuracyOf (steps (Suc m) (submit f s0)) a = accuracyOf (steps m (submit f s0)) a)
                \<or> (progressOf (steps (Suc m) (submit f s0)) a
                      = min (progressOf (steps m (submit f s0)) a + incrementOf a) 100
                   \<and> accuracyOf (steps (Suc m) (submit f s0)) a
                      = min (accuracyOf (steps m (submit f s0)) a + accuracyIncrementOf (File.name f) a)
                            (targetOf (File.name f) a))"
  proof (intro allI impI)
    fix m assume "m < n"
    from tickRel_alg [OF rel [OF this] i, folded ai]
    show "(progressOf (steps (Suc m) (submit f s0)) a = progressOf (steps m (submit f s0)) a
                   \<and> accuracyOf (steps (Suc m) (submit f s0)) a = accuracyOf (steps m (submit f s0)) a)
                \<or> (progressOf (steps (Suc m) (submit f s0)) a
                      = min (progressOf (steps m (submit f s0)) a + incrementOf a) 100
                   \<and> accuracyOf (steps (Suc m) (submit f s0)) a
                      = min (accuracyOf (steps m (submit f s0)) a + accuracyIncrementOf (File.name f) a)
                            (targetOf (File.name f) a))"
      by blast
  qed
  have c5: "\<forall>m<n. progressOf (steps m (submit f s0)) a \<le> progressOf (steps (Suc m) (submit f s0)) a
                     \<and> accuracyOf (steps m (submit f s0)) a \<le> accuracyOf (steps (Suc m) (submit f s0)) a"
  proof (intro allI impI)
    fix m assume m: "m < n"
    then have "m \<le> n" by simp
    from tickRel_mono [OF rel [OF m] inv [OF this] i, folded ai]
    show "progressOf (steps m (submit f s0)) a \<le> progressOf (steps (Suc m) (submit f s0)) a
                     \<and> accuracyOf (steps m (submit f s0)) a \<le> accuracyOf (steps (Suc m) (submit f s0)) a"
      by blast
  qed
  have tk: "\<exists>k. ticked (clock s0) f (steps m (submit f s0)) a k" if "m \<le> n" for m
    unfolding ai by (rule inSession_ticked [OF inv [OF that] i])
  have c6: "\<forall>m\<le>n. \<exists>k. 50 * k \<le> duration a
                     \<and> progressOf (steps m (submit f s0)) a = of_nat k * incrementOf a
                     \<and> accuracyOf (steps m (submit f s0)) a
                         = 76 / 100 + of_nat k * accuracyIncrementOf (File.name f) a
                     \<and> clock s0 + 50 * k \<le> clock (steps m (submit f s0))
                     \<and> (50 * k < duration a \<longrightarrow> clock (steps m (submit f s0)) \<le> clock s0 + 50 * (k + 1))"
  proof (intro allI impI)
    fix m assume "m \<le> n"
    from tk [OF this] obtain k where k: "ticked (clock s0) f (steps m (submit f s0)) a k" ..
    from ticked_values(1,2) [OF k d0] k
    show "\<exists>k. 50 * k \<le> duration a
                     \<and> progressOf (steps m (submit f s0)) a = of_nat k * incrementOf a
                     \<and> accuracyOf (steps m (submit f s0)) a
                         = 76 / 100 + of_nat k * accuracyIncrementOf (File.name f) a
                     \<and> clock s0 + 50 * k \<le> clock (steps m (submit f s0))
                     \<and> (50 * k < duration a \<longrightarrow> clock (steps m (submit f s0)) \<le> clock s0 + 50 * (k + 1))"
      unfolding ticked_def by blast
  qed
  have c7: "\<forall>m\<le>n. progressOf (steps m (submit f s0)) a \<le> 100
                     \<and> accuracyOf (steps m (submit f s0)) a \<le> targetOf (File.name f) a"
  proof (intro allI impI)
    fix m assume "m \<le> n"
    from tk [OF this] obtain k where k: "ticked (clock s0) f (steps m (submit f s0)) a k" ..
    from ticked_values(4,6) [OF k d0]
    show "progressOf (steps m (submit f s0)) a \<le> 100
                     \<and> accuracyOf (steps m (submit f s0)) a \<le> targetOf (File.name f) a"
      by blast
  qed
  have c8: "progressOf (steps n (submit f s0)) a = 100"
    "accuracyOf (steps n (submit f s0)) a = targetOf (File.name f) a"
    unfolding ai by (rule finished_alg(1,2) [OF fin i])+
  show ?thesis
    by (intro exI [of _ n] conjI c1 c2 c3 c4 c5 c6 c7 c8)
qed

theorem progress_and_accuracy_trajectory_witness:
  "idle mounted \<and> File.name scanA \<noteq> [] \<and> hd ANALYSIS_ALGORITHMS \<in> set ANALYSIS_ALGORITHMS
   \<and> (\<exists>n. progressOf (submit scanA mounted) (hd ANALYSIS_ALGORITHMS) = 0
          \<and> accuracyOf (submit scanA mounted) (hd ANALYSIS_ALGORITHMS) = 76 / 100
          \<and> progressOf (steps n (submit scanA mounted)) (hd ANALYSIS_ALGORITHMS) = 100
          \<and> accuracyOf (steps n (submit scanA mounted)) (hd ANALYSIS_ALGORITHMS)
               = targetOf (File.name scanA) (hd ANALYSIS_ALGORITHMS)
          \<and> \<not> isAnalyzing (steps (Suc n) (submit scanA mounted)))"
proof -
  have h1: "idle mounted" by (rule idle_mounted)
  have h2: "File.name scanA \<noteq> []" by (simp add: scanA_def)
  have h3: "hd ANALYSIS_ALGORITHMS \<in> set ANALYSIS_ALGORITHMS" by (simp add: ANALYSIS_ALGORITHMS_def)
  from progress_and_accuracy_trajectory [OF h1 h2 h3] obtain n where
    "progressOf (submit scanA mounted) (hd ANALYSIS_ALGORITHMS) = 0"
    "accuracyOf (submit scanA mounted) (hd ANALYSIS_ALGORITHMS) = 76 / 100"
    "progressOf (steps n (submit scanA mounted)) (hd ANALYSIS_ALGORITHMS) = 100"
    "accuracyOf (steps n (submit scanA mounted)) (hd ANALYSIS_ALGORITHMS)
       = targetOf (File.name scanA) (hd ANALYSIS_ALGORITHMS)"
    "\<not> isAnalyzing (steps (Suc n) (submit scanA mounted))"
    by blast
  with h1 h2 h3 show ?thesis by blast
qed

section \<open>Completion order\<close>

lemma roster_names_card: "card (Algorithm.name ` set ANALYSIS_ALGORITHMS) = 5"
  using distinct_card [OF roster_names_distinct] by (simp add: roster_length)

text \<open>
  Claim C7. In the session of a file with a non-empty name submitted in a state at rest:
  the completion order is empty at the start, has no duplicates in any state, and each
  step only appends to it; in every state it contains the name of an algorithm exactly
  when the progress of that algorithm is 100; an algorithm that is completed keeps its
  progress and accuracy and stays completed; and in the last state of the session the
  completion order holds the five names of the roster, each once.
\<close>

theorem completion_order_append_only:
  assumes "idle s0" and "File.name f \<noteq> []"
  shows "\<exists>n. (\<forall>m\<le>n. isAnalyzing (steps m (submit f s0)))
            \<and> \<not> isAnalyzing (steps (Suc n) (submit f s0))
            \<and> completedAlgorithms (submit f s0) = []
            \<and> (\<forall>m\<le>n. distinct (completedAlgorithms (steps m (submit f s0))))
            \<and> (\<forall>m<n. prefix (completedAlgorithms (steps m (submit f s0)))
                            (completedAlgorithms (steps (Suc m) (submit f s0))))
            \<and> (\<forall>m\<le>n. \<forall>a \<in> set ANALYSIS_ALGORITHMS.
                  (Algorithm.name a \<in> set (completedAlgorithms (steps m (submit f s0))))
                    = (progressOf (steps m (submit f s0)) a = 100))
            \<and> (\<forall>m<n. \<forall>a \<in> set ANALYSIS_ALGORITHMS.
                  Algorithm.name a \<in> set (completedAlgorithms (steps m (submit f s0))) \<longrightarrow>
                    progressOf (steps (Suc m) (submit f s0)) a = progressOf (steps m (submit f s0)) a
                  \<and> accuracyOf (steps (Suc m) (submit f s0)) a = accuracyOf (steps m (submit f s0)) a
                  \<and> Algorithm.name a \<in> set (completedAlgorithms (steps (Suc m) (submit f s0))))
            \<and> set (completedAlgorithms (steps n (submit f s0))) = Algorithm.name ` set ANALYSIS_ALGORITHMS
            \<and> length (completedAlgorithms (steps n (submit f s0))) = 5"
proof -
  obtain n where inv: "\<And>m. m \<le> n \<Longrightarrow> inSession (clock s0) (nextTimer s0) f (steps m (submit f s0))"
    and rel: "\<And>m. m < n \<Longrightarrow> tickRel f (steps m (submit f s0)) (steps (Suc m) (submit f s0))"
    and fin: "finished (clock s0) f (steps n (submit f s0)) (steps (Suc n) (submit f s0))"
    using session_exists [OF assms(1,2)] by blast
  have c1: "\<forall>m\<le>n. isAnalyzing (steps m (submit f s0))"
    using inSession_control(1) [OF inv] by blast
  have c2: "\<not> isAnalyzing (steps (Suc n) (submit f s0))"
    by (rule finished_control(1) [OF fin])
  have c3: "completedAlgorithms (submit f s0) = []"
    by (rule submit_fields(8) [OF assms])
  have c4: "\<forall>m\<le>n. distinct (completedAlgorithms (steps m (submit f s0)))"
    using inSession_control(5) [OF inv] by blast
  have c5: "\<forall>m<n. prefix (completedAlgorithms (steps m (submit f s0)))
                            (completedAlgorithms (steps (Suc m) (submit f s0)))"
    using rel by (simp add: tickRel_def)
  have c6: "\<forall>m\<le>n. \<forall>a \<in> set ANALYSIS_ALGORITHMS.
                  (Algorithm.name a \<in> set (completedAlgorithms (steps m (submit f s0))))
                    = (progressOf (steps m (submit f s0)) a = 100)"
  proof (intro allI impI ballI)
    fix m a assume m: "m \<le> n" and a: "a \<in> set ANALYSIS_ALGORITHMS"
    obtain i where i: "i < 5" and ai: "a = ANALYSIS_ALGORITHMS ! i"
      using roster_index [OF a] .
    have d0: "0 < duration a" using roster_duration(1) [OF i] by (simp add: ai)
    obtain k where k: "ticked (clock s0) f (steps m (submit f s0)) a k"
      using inSession_ticked [OF inv [OF m] i] by (auto simp: ai)
    from ticked_values(7) [OF k d0] k
    show "(Algorithm.name a \<in> set (completedAlgorithms (steps m (submit f s0))))
            = (progressOf (steps m (submit f s0)) a = 100)"
      by (simp add: ticked_def)
  qed
  have c7: "\<forall>m<n. \<forall>a \<in> set ANALYSIS_ALGORITHMS.
                  Algorithm.name a \<in> set (completedAlgorithms (steps m (submit f s0))) \<longrightarrow>
                    progressOf (steps (Suc m) (submit f s0)) a = progressOf (steps m (submit f s0)) a
                  \<and> accuracyOf (steps (Suc m) (submit f s0)) a = accuracyOf (steps m (submit f s0)) a
                  \<and> Algorithm.name a \<in> set (completedAlgorithms (steps (Suc m) (submit f s0)))"
  proof (intro allI impI ballI)
    fix m a assume m: "m < n" and a: "a \<in> set ANALYSIS_ALGORITHMS"
      and c: "Algorithm.name a \<in> set (completedAlgorithms (steps m (submit f s0)))"
    obtain i where i: "i < 5" and ai: "a = ANALYSIS_ALGORITHMS ! i"
      using roster_index [OF a] .
    from tickRel_completed [OF rel [OF m] i c [unfolded ai]]
    show "progressOf (steps (Suc m) (submit f s0)) a = progressOf (steps m (submit f s0)) a
                  \<and> accuracyOf (steps (Suc m) (submit f s0)) a = accuracyOf (steps m (submit f s0)) a
                  \<and> Algorithm.name a \<in> set (completedAlgorithms (steps (Suc m) (submit f s0)))"
      unfolding ai by blast
  qed
  have sub: "set (completedAlgorithms (steps n (submit f s0))) \<subseteq> Algorithm.name ` set ANALYSIS_ALGORITHMS"
    using inv [of n] by (simp add: inSession_def)
  have sup: "Algorithm.name ` set ANALYSIS_ALGORITHMS \<subseteq> set (completedAlgorithms (steps n (submit f s0)))"
  proof
    fix x assume "x \<in> Algorithm.name ` set ANALYSIS_ALGORITHMS"
    then obtain a where a: "a \<in> set ANALYSIS_ALGORITHMS" and x: "x = Algorithm.name a" by blast
    obtain i where i: "i < 5" and ai: "a = ANALYSIS_ALGORITHMS ! i"
      using roster_index [OF a] .
    from finished_alg(3) [OF fin i] show "x \<in> set (completedAlgorithms (steps n (submit f s0)))"
      by (simp add: x ai)
  qed
  have c8: "set (completedAlgorithms (steps n (submit f s0))) = Algorithm.name ` set ANALYSIS_ALGORITHMS"
    using sub sup by (rule subset_antisym)
  have "distinct (completedAlgorithms (steps n (submit f s0)))" using c4 by simp
  from distinct_card [OF this]
  have c9: "length (completedAlgorithms (steps n (submit f s0))) = 5"
    unfolding c8 roster_names_card by simp
  show ?thesis
    by (intro exI [of _ n] conjI c1 c2 c3 c4 c5 c6 c7 c8 c9)
qed

theorem completion_order_append_only_witness:
  "idle mounted \<and> File.name scanA \<noteq> []
   \<and> (\<exists>n. completedAlgorithms (submit scanA mounted) = []
          \<and> distinct (completedAlgorithms (steps n (submit scanA mounted)))
          \<and> set (completedAlgorithms (steps n (submit scanA mounted)))
               = Algorithm.name ` set ANALYSIS_ALGORITHMS
          \<and> length (completedAlgorithms (steps n (submit scanA mounted))) = 5
          \<and> isAnalyzing (steps n (submit scanA mounted))
          \<and> \<not> isAnalyzing (steps (Suc n) (submit scanA mounted)))"
proof -
  have h1: "idle mounted" by (rule idle_mounted)
  have h2: "File.name scanA \<noteq> []" by (simp add: scanA_def)
  have "\<exists>n. completedAlgorithms (submit scanA mounted) = []
          \<and> distinct (completedAlgorithms (steps n (submit scanA mounted)))
          \<and> set (completedAlgorithms (steps n (submit scanA mounted)))
               = Algorithm.name ` set ANALYSIS_ALGORITHMS
          \<and> length (completedAlgorithms (steps n (submit scanA mounted))) = 5
          \<and> isAnalyzing (steps n (submit scanA mounted))
          \<and> \<not> isAnalyzing (steps (Suc n) (submit scanA mounted))"
    using completion_order_append_only [OF h1 h2]
    apply (elim exE conjE)
    apply (rule_tac x = n in exI)
    apply (intro conjI)
         apply assumption
        apply (erule allE, erule mp, rule le_refl)
       apply assumption
      apply assumption
     apply (erule allE, erule mp, rule le_refl)
    apply assumption
    done
  with h1 h2 show ?thesis by (intro conjI)
qed

section \<open>Submitting a file during a session\<close>

lemma clearAll:
  "foldl (\<lambda>u i. clearTimer i u) s is = s\<lparr>timers := filter (\<lambda>t. tid t \<notin> set is) (timers s)\<rparr>"
proof (induction "is" arbitrary: s)
  case Nil
  show ?case by simp
next
  case (Cons i "is")
  have "filter (\<lambda>t. tid t \<notin> set is) (cancel i (timers s))
          = filter (\<lambda>t. tid t \<notin> set (i # is)) (timers s)"
    by (auto simp: cancel_def intro: filter_cong)
  then show ?case unfolding foldl_Cons Cons.IH by (simp add: clearTimer_def)
qed

lemma startAll:
  "algorithmProgress (foldl (startAlgorithm nm) s as) = algorithmProgress s
   \<and> algorithmAccuracy (foldl (startAlgorithm nm) s as) = algorithmAccuracy s
   \<and> set (timers s) \<subseteq> set (timers (foldl (startAlgorithm nm) s as))"
proof (induction "as" arbitrary: s)
  case Nil
  show ?case by simp
next
  case (Cons a "as")
  have "algorithmProgress (startAlgorithm nm s a) = algorithmProgress s"
    "algorithmAccuracy (startAlgorithm nm s a) = algorithmAccuracy s"
    "set (timers s) \<subseteq> set (timers (startAlgorithm nm s a))"
    by (auto simp: startAlgorithm_def setInterval_def Let_def)
  with Cons.IH [of "startAlgorithm nm s a"] show ?case by auto
qed

lemma rosterEffect_running:
  assumes "isAnalyzing s" "currentFileName s \<noteq> []"
  shows "algorithmProgress (rosterEffect s) = algorithmProgress s"
    and "algorithmAccuracy (rosterEffect s) = algorithmAccuracy s"
    and "set (timers s) \<subseteq> set (timers (rosterEffect s))"
  using assms startAll [of "currentFileName s" s ANALYSIS_ALGORITHMS]
  by (auto simp: rosterEffect_def setTimeout_def)

lemma overallEffect_running:
  assumes "isAnalyzing s"
  shows "algorithmProgress (overallEffect s) = algorithmProgress s"
    and "algorithmAccuracy (overallEffect s) = algorithmAccuracy s"
    and "set (timers s) \<subseteq> set (timers (overallEffect s))"
    and "isAnalyzing (overallEffect s)" and "currentFileName (overallEffect s) = currentFileName s"
  using assms by (auto simp: overallEffect_def setTimeout_def setInterval_def Let_def)

text \<open>A render while analysing a named file: the run states stay, and so does every timer
  that the overall-progress cleanup does not name.\<close>

lemma commit_running:
  assumes a: "isAnalyzing s" and nm: "currentFileName s \<noteq> []"
  shows "algorithmProgress (commit s) = algorithmProgress s"
    and "algorithmAccuracy (commit s) = algorithmAccuracy s"
    and "t \<in> set (timers s) \<Longrightarrow> tid t \<notin> set (overallCleanup s) \<Longrightarrow> t \<in> set (timers (commit s))"
proof -
  define s1 where "s1 = (if overallDeps s \<noteq> Some (isAnalyzing s, processingImage s)
      then foldl (\<lambda>u i. clearTimer i u) s (overallCleanup s) else s)"
  define s2 where "s2 = (if overallDeps s \<noteq> Some (isAnalyzing s, processingImage s)
      then overallEffect s1 else s1)"
  define s3 where "s3 = (if rosterDeps s \<noteq> Some (isAnalyzing s, currentFileName s)
      then rosterEffect s2 else s2)"
  have c: "commit s = s3\<lparr>overallDeps := Some (isAnalyzing s, processingImage s),
                         rosterDeps := Some (isAnalyzing s, currentFileName s)\<rparr>"
    by (simp add: commit_def Let_def s1_def s2_def s3_def)
  have f1: "isAnalyzing s1" "currentFileName s1 = currentFileName s"
    "algorithmProgress s1 = algorithmProgress s" "algorithmAccuracy s1 = algorithmAccuracy s"
    using a by (simp_all add: s1_def clearAll)
  have t1: "t \<in> set (timers s) \<Longrightarrow> tid t \<notin> set (overallCleanup s) \<Longrightarrow> t \<in> set (timers s1)"
    by (simp add: s1_def clearAll)
  note oe = overallEffect_running [OF f1(1)]
  have f2: "isAnalyzing s2" "currentFileName s2 = currentFileName s"
    "algorithmProgress s2 = algorithmProgress s" "algorithmAccuracy s2 = algorithmAccuracy s"
    and t2: "set (timers s1) \<subseteq> set (timers s2)"
    using f1 oe by (auto simp: s2_def)
  have nm2: "currentFileName s2 \<noteq> []" using nm f2(2) by simp
  note re = rosterEffect_running [OF f2(1) nm2]
  have f3: "algorithmProgress s3 = algorithmProgress s" "algorithmAccuracy s3 = algorithmAccuracy s"
    and t3: "set (timers s2) \<subseteq> set (timers s3)"
    using f2 re by (auto simp: s3_def)
  show "algorithmProgress (commit s) = algorithmProgress s"
    "algorithmAccuracy (commit s) = algorithmAccuracy s"
    using f3 by (simp_all add: c)
  show "t \<in> set (timers s) \<Longrightarrow> tid t \<notin> set (overallCleanup s) \<Longrightarrow> t \<in> set (timers (commit s))"
    using t1 t2 t3 by (auto simp: c)
qed

lemma analyzeFile_fields:
  shows "isAnalyzing (analyzeFile g s)" and "currentFileName (analyzeFile g s) = File.name g"
    and "algorithmProgress (analyzeFile g s) = algorithmProgress s"
    and "algorithmAccuracy (analyzeFile g s) = algorithmAccuracy s"
    and "overallCleanup (analyzeFile g s) = overallCleanup s"
    and "set (timers s) \<subseteq> set (timers (analyzeFile g s))"
  by (auto simp: analyzeFile_def setTimeout_def Let_def)

text \<open>A new file is submitted while a session runs.\<close>

lemma resubmit:
  assumes inv: "inSession T0 n0 f s" and g: "File.name g \<noteq> []"
  shows "algorithmProgress (submit g s) = algorithmProgress s"
    and "algorithmAccuracy (submit g s) = algorithmAccuracy s"
    and "t \<in> set (timers s) \<Longrightarrow> act t \<noteq> OverallDone \<Longrightarrow> act t \<noteq> StepTick \<Longrightarrow>
         (\<And>tot. act t \<noteq> OverallTick tot) \<Longrightarrow> t \<in> set (timers (submit g s))"
    and "\<exists>t \<in> set (timers (submit g s)). act t = RosterDone \<and> due t = T0 + 9000"
proof -
  note af = analyzeFile_fields [where g = g and s = s]
  have nm: "currentFileName (analyzeFile g s) \<noteq> []" using g af(2) by simp
  note cr = commit_running [OF af(1) nm]
  show "algorithmProgress (submit g s) = algorithmProgress s"
    "algorithmAccuracy (submit g s) = algorithmAccuracy s"
    using cr(1,2) af(3,4) by (simp_all add: submit_def)
  have oc: "overallCleanup s = [n0 + 1, n0 + 2, n0 + 3]"
    using inv by (simp add: inSession_def ctl_def)
  have keep: "t \<in> set (timers (submit g s))"
    if t: "t \<in> set (timers s)" and k: "tid t \<noteq> n0 + 1" "tid t \<noteq> n0 + 2" "tid t \<noteq> n0 + 3" for t
    unfolding submit_def using cr(3) [of t] af(5,6) t k oc by auto
  show "t \<in> set (timers (submit g s))"
    if t: "t \<in> set (timers s)" and k: "act t \<noteq> OverallDone" "act t \<noteq> StepTick"
      "\<And>tot. act t \<noteq> OverallTick tot" for t
  proof -
    note wt = wellTimer_tid [OF inSession_timer(2) [OF inv t]]
    from wt(2,3,4) k have "tid t \<noteq> n0 + 1" "tid t \<noteq> n0 + 2" "tid t \<noteq> n0 + 3" by auto
    with t show ?thesis by (rule keep)
  qed
  obtain r where r: "r \<in> set (timers s)" "tid r = n0 + 9" "due r = T0 + 9000"
    using roster_timer [OF inv] .
  from wellTimer_tid(5) [OF inSession_timer(2) [OF inv r(1)] r(2)] keep [OF r(1)] r(2,3)
  show "\<exists>t \<in> set (timers (submit g s)). act t = RosterDone \<and> due t = T0 + 9000"
    by auto
qed

lemma startAll_nextTimer:
  "nextTimer (foldl (startAlgorithm nm) s as) = nextTimer s + length as"
proof (induction "as" arbitrary: s)
  case Nil
  show ?case by simp
next
  case (Cons a "as")
  have "nextTimer (startAlgorithm nm s a) = Suc (nextTimer s)"
    by (simp add: startAlgorithm_def setInterval_def Let_def)
  then show ?case unfolding foldl_Cons Cons.IH by simp
qed

lemma submit_nextTimer:
  assumes "idle s0" "File.name f \<noteq> []"
  shows "nextTimer (submit f s0) = nextTimer s0 + 10"
  using assms
  by (simp add: submit_def analyzeFile_def commit_def Let_def idle_def setTimeout_def setInterval_def
        overallEffect_def rosterEffect_def startAll_nextTimer roster_length)

lemma submit_alg_pending:
  assumes "idle s0" "File.name f \<noteq> []" "i < 5"
  shows "pending (submit f s0) (nextTimer s0 + 4 + i)"
  using lt5_cases [OF assms(3)] by (auto simp: pending_def submit_timers [OF assms(1,2)])

text \<open>
  Claim C4. The claim does not hold of the program: the algorithm effect returns no cleanup
  (lines 277 to 318), whereas the overall-progress effect clears its timers (lines 266 to
  270). A second file \<open>g\<close> is submitted in any state of the session of a first file \<open>f\<close>
  (both names non-empty). The maps of progress and accuracy are not reset: they keep the
  values of the first session. Every pending timer of the first session other than the
  three of the overall-progress effect stays pending, among them its roster timeout, still
  due 9000 ms after the first submission. Submitted right after the first file, the second
  finds the five intervals of the first session pending, with the increments and target of
  the first file's name in their closures. Submitted in the last state of the first
  session, it starts from progress 100 and the first file's target accuracy for every
  algorithm, not from 0 and 0.76.
\<close>

theorem resubmit_keeps_stale_timers:
  assumes "idle s0" and "File.name f \<noteq> []" and "File.name g \<noteq> []"
  shows "\<exists>n. (\<forall>m\<le>n. isAnalyzing (steps m (submit f s0))
               \<and> algorithmProgress (submit g (steps m (submit f s0)))
                   = algorithmProgress (steps m (submit f s0))
               \<and> algorithmAccuracy (submit g (steps m (submit f s0)))
                   = algorithmAccuracy (steps m (submit f s0))
               \<and> (\<forall>t \<in> set (timers (steps m (submit f s0))).
                     act t \<noteq> OverallDone \<and> act t \<noteq> StepTick \<and> (\<forall>tot. act t \<noteq> OverallTick tot)
                     \<longrightarrow> t \<in> set (timers (submit g (steps m (submit f s0)))))
               \<and> (\<exists>t \<in> set (timers (submit g (steps m (submit f s0)))).
                     act t = RosterDone \<and> due t = clock s0 + 9000))
            \<and> (\<forall>a \<in> set ANALYSIS_ALGORITHMS.
                  \<exists>t \<in> set (timers (submit g (submit f s0))).
                    tid t < nextTimer (submit f s0) \<and> period t = Some 50
                    \<and> act t = AlgTick (Algorithm.name a) (incrementOf a)
                                (targetOf (File.name f) a) (accuracyIncrementOf (File.name f) a))
            \<and> (\<forall>a \<in> set ANALYSIS_ALGORITHMS.
                  progressOf (submit g (steps n (submit f s0))) a = 100
                  \<and> accuracyOf (submit g (steps n (submit f s0))) a = targetOf (File.name f) a)
            \<and> \<not> isAnalyzing (steps (Suc n) (submit f s0))"
proof -
  obtain n where inv: "\<And>m. m \<le> n \<Longrightarrow> inSession (clock s0) (nextTimer s0) f (steps m (submit f s0))"
    and fin: "finished (clock s0) f (steps n (submit f s0)) (steps (Suc n) (submit f s0))"
    using session_exists [OF assms(1,2)] by blast
  have c1: "\<forall>m\<le>n. isAnalyzing (steps m (submit f s0))
               \<and> algorithmProgress (submit g (steps m (submit f s0)))
                   = algorithmProgress (steps m (submit f s0))
               \<and> algorithmAccuracy (submit g (steps m (submit f s0)))
                   = algorithmAccuracy (steps m (submit f s0))
               \<and> (\<forall>t \<in> set (timers (steps m (submit f s0))).
                     act t \<noteq> OverallDone \<and> act t \<noteq> StepTick \<and> (\<forall>tot. act t \<noteq> OverallTick tot)
                     \<longrightarrow> t \<in> set (timers (submit g (steps m (submit f s0)))))
               \<and> (\<exists>t \<in> set (timers (submit g (steps m (submit f s0)))).
                     act t = RosterDone \<and> due t = clock s0 + 9000)"
  proof (intro allI impI)
    fix m assume m: "m \<le> n"
    note rs = resubmit [OF inv [OF m] assms(3)]
    from inSession_control(1) [OF inv [OF m]] rs(1,2,4) rs(3)
    show "isAnalyzing (steps m (submit f s0))
               \<and> algorithmProgress (submit g (steps m (submit f s0)))
                   = algorithmProgress (steps m (submit f s0))
               \<and> algorithmAccuracy (submit g (steps m (submit f s0)))
                   = algorithmAccuracy (steps m (submit f s0))
               \<and> (\<forall>t \<in> set (timers (steps m (submit f s0))).
                     act t \<noteq> OverallDone \<and> act t \<noteq> StepTick \<and> (\<forall>tot. act t \<noteq> OverallTick tot)
                     \<longrightarrow> t \<in> set (timers (submit g (steps m (submit f s0)))))
               \<and> (\<exists>t \<in> set (timers (submit g (steps m (submit f s0)))).
                     act t = RosterDone \<and> due t = clock s0 + 9000)"
      by blast
  qed
  have inv0: "inSession (clock s0) (nextTimer s0) f (submit f s0)"
    using inv [of 0] by simp
  have c2: "\<forall>a \<in> set ANALYSIS_ALGORITHMS.
                  \<exists>t \<in> set (timers (submit g (submit f s0))).
                    tid t < nextTimer (submit f s0) \<and> period t = Some 50
                    \<and> act t = AlgTick (Algorithm.name a) (incrementOf a)
                                (targetOf (File.name f) a) (accuracyIncrementOf (File.name f) a)"
  proof
    fix a assume a: "a \<in> set ANALYSIS_ALGORITHMS"
    obtain i where i: "i < 5" and ai: "a = ANALYSIS_ALGORITHMS ! i"
      using roster_index [OF a] .
    from submit_alg_pending [OF assms(1,2) i] obtain t where
      t: "t \<in> set (timers (submit f s0))" "tid t = nextTimer s0 + 4 + i"
      by (auto simp: pending_def)
    note al = wellTimer_alg(1,2) [OF inSession_timer(2) [OF inv0 t(1)] i t(2), folded ai]
    have "t \<in> set (timers (submit g (submit f s0)))"
      by (rule resubmit(3) [OF inv0 assms(3) t(1)]) (simp_all add: al(2))
    moreover have "tid t < nextTimer (submit f s0)"
      using i by (simp add: t(2) submit_nextTimer [OF assms(1,2)])
    ultimately show "\<exists>t \<in> set (timers (submit g (submit f s0))).
                    tid t < nextTimer (submit f s0) \<and> period t = Some 50
                    \<and> act t = AlgTick (Algorithm.name a) (incrementOf a)
                                (targetOf (File.name f) a) (accuracyIncrementOf (File.name f) a)"
      using al by blast
  qed
  have c3: "\<forall>a \<in> set ANALYSIS_ALGORITHMS.
                  progressOf (submit g (steps n (submit f s0))) a = 100
                  \<and> accuracyOf (submit g (steps n (submit f s0))) a = targetOf (File.name f) a"
  proof
    fix a assume a: "a \<in> set ANALYSIS_ALGORITHMS"
    obtain i where i: "i < 5" and ai: "a = ANALYSIS_ALGORITHMS ! i"
      using roster_index [OF a] .
    note rs = resubmit(1,2) [OF inv [OF le_refl] assms(3)]
    from finished_alg(1,2) [OF fin i]
    show "progressOf (submit g (steps n (submit f s0))) a = 100
                  \<and> accuracyOf (submit g (steps n (submit f s0))) a = targetOf (File.name f) a"
      by (simp add: progressOf_def accuracyOf_def rs ai)
  qed
  have c4: "\<not> isAnalyzing (steps (Suc n) (submit f s0))"
    by (rule finished_control(1) [OF fin])
  show ?thesis
    by (intro exI [of _ n] conjI c1 c2 c3 c4)
qed

theorem resubmit_keeps_stale_timers_witness:
  "idle mounted \<and> File.name scanA \<noteq> [] \<and> File.name report \<noteq> []
   \<and> (\<exists>n. isAnalyzing (steps n (submit scanA mounted))
          \<and> algorithmProgress (submit report (steps n (submit scanA mounted)))
               = algorithmProgress (steps n (submit scanA mounted))
          \<and> (\<exists>t \<in> set (timers (submit report (steps n (submit scanA mounted)))).
                act t = RosterDone \<and> due t = clock mounted + 9000)
          \<and> \<not> isAnalyzing (steps (Suc n) (submit scanA mounted)))"
proof -
  have h1: "idle mounted" by (rule idle_mounted)
  have h2: "File.name scanA \<noteq> []" by (simp add: scanA_def)
  have h3: "File.name report \<noteq> []" by (simp add: report_def)
  have "\<exists>n. isAnalyzing (steps n (submit scanA mounted))
          \<and> algorithmProgress (submit report (steps n (submit scanA mounted)))
               = algorithmProgress (steps n (submit scanA mounted))
          \<and> (\<exists>t \<in> set (timers (submit report (steps n (submit scanA mounted)))).
                act t = RosterDone \<and> due t = clock mounted + 9000)
          \<and> \<not> isAnalyzing (steps (Suc n) (submit scanA mounted))"
    using resubmit_keeps_stale_timers [OF h1 h2 h3]
    apply (elim exE conjE)
    apply (rule_tac x = n in exI)
    apply (drule_tac x = n in spec)
    apply (drule mp, rule le_refl)
    apply (elim conjE)
    apply (intro conjI)
       apply assumption+
    done
  with h1 h2 h3 show ?thesis by (intro conjI)
qed

end
